theory Spec2Isabelle
  imports Main "HOL-Library.Word" "HOL-Library.Finite_Map"
begin

unbundle bit_operations_syntax

section \<open>Bytes, little-endian integers and CRC-32\<close>

text \<open>
  The segment code works on Go byte slices. A byte is an 8-bit word, a slice is a list.
  \<^verbatim>\<open>binary.LittleEndian\<close> and \<^verbatim>\<open>crc32.ChecksumIEEE\<close> belong to the Go standard
  library; they are written out here after their documented behaviour so that every
  definition below computes.
\<close>

type_synonym byte = "8 word"

definition PutUint32 :: "32 word \<Rightarrow> byte list" where
  "PutUint32 v = [ucast v, ucast (drop_bit 8 v), ucast (drop_bit 16 v), ucast (drop_bit 24 v)]"

definition Uint32 :: "byte list \<Rightarrow> 32 word" where
  "Uint32 b = ucast (b ! 0) OR push_bit 8 (ucast (b ! 1)) OR push_bit 16 (ucast (b ! 2))
     OR push_bit 24 (ucast (b ! 3))"

definition PutUint16 :: "16 word \<Rightarrow> byte list" where
  "PutUint16 v = [ucast v, ucast (drop_bit 8 v)]"

definition Uint16 :: "byte list \<Rightarrow> 16 word" where
  "Uint16 b = ucast (b ! 0) OR push_bit 8 (ucast (b ! 1))"

text \<open>
  CRC-32 with the IEEE polynomial in its reflected form \<open>0xEDB88320\<close>, initial value and
  final complement \<open>0xFFFFFFFF\<close>, one bit at a time.
\<close>

definition crc_step :: "32 word \<Rightarrow> 32 word" where
  "crc_step c = (if bit c 0 then drop_bit 1 c XOR 0xEDB88320 else drop_bit 1 c)"

definition crc_byte :: "32 word \<Rightarrow> byte \<Rightarrow> 32 word" where
  "crc_byte c b =
     crc_step (crc_step (crc_step (crc_step (crc_step (crc_step (crc_step (crc_step
       (c XOR ucast b))))))))"

definition ChecksumIEEE :: "byte list \<Rightarrow> 32 word" where
  "ChecksumIEEE bs = NOT (foldl crc_byte 0xFFFFFFFF bs)"

section \<open>Constants, errors and the data model of the segment\<close>

definition blockSize :: nat where
  "blockSize = 32 * 1024"

definition chunkHeaderSize :: nat where
  "chunkHeaderSize = 7"

text \<open>\<^verbatim>\<open>type ChunkType byte\<close>: any byte can be read back from disk as a chunk type.\<close>

type_synonym ChunkType = byte

definition kFullType :: ChunkType where "kFullType = 0"
definition kFirstType :: ChunkType where "kFirstType = 1"
definition kMiddleType :: ChunkType where "kMiddleType = 2"
definition kLastType :: ChunkType where "kLastType = 3"

text \<open>
  The error values the code can return. \<open>EOF\<close> is \<^verbatim>\<open>io.EOF\<close>; the two chunk-type
  errors are the two \<^verbatim>\<open>fmt.Errorf\<close> messages of \<^verbatim>\<open>Segment.Read\<close>; \<open>ErrInvalidFormat\<close> is
  \<^verbatim>\<open>errors.New("invalid format")\<close>; \<open>hex_ErrLength\<close> and \<open>hex_InvalidByteError\<close> are the
  errors of \<^verbatim>\<open>encoding/hex\<close>; \<open>ErrUnexpectedEOF\<close> is \<^verbatim>\<open>io.ErrUnexpectedEOF\<close>;
  \<open>ErrSeek\<close> is the failure of a seek to a negative offset;
  \<open>ErrRotation\<close> is the wrapped error of a failed rotation; \<open>Panic\<close> stands for a Go
  run-time panic (slice bounds out of range, nil dereference).
  The file system is otherwise taken to be reliable: opening, writing and syncing succeed.
\<close>

datatype error =
    ErrClosed
  | ErrInvalidCRC
  | ErrEndOfBlock
  | EOF
  | ErrInvalidFirstChunkType ChunkType
  | ErrInvalidChunkType ChunkType
  | ErrInvalidFormat
  | ErrSegmentNotFound
  | hex_ErrLength
  | hex_InvalidByteError char
  | ErrUnexpectedEOF
  | ErrSeek
  | ErrRotation error
  | Panic

record block =
  blk_id :: int
  blk_data :: "byte list"
  flushed :: nat

text \<open>
  The file behind \<^verbatim>\<open>fd\<close> is its content. It is opened with \<^verbatim>\<open>O_APPEND\<close>, so every
  write goes to the end, and every read is preceded by a seek, so no file offset is kept.
\<close>

record Segment =
  seg_id :: int
  fd :: "byte list"
  closed :: bool
  currentBlock :: block
  cachedBlock :: block

record chunk =
  chk_data :: "byte list"
  chunkType :: ChunkType

record Position =
  SegmentId :: int
  BlockId :: int
  Offset :: int

section \<open>Position codec\<close>

definition Position_Encode :: "Position \<Rightarrow> byte list" where
  "Position_Encode p =
     PutUint32 (of_int (SegmentId p)) @ PutUint32 (of_int (BlockId p)) @ PutUint32 (of_int (Offset p))"

definition Position_Decode :: "byte list \<Rightarrow> error + Position" where
  "Position_Decode bs =
     (if length bs \<noteq> 12 then Inl ErrInvalidFormat
      else Inr \<lparr> SegmentId = uint (Uint32 (take 4 bs)),
                 BlockId = uint (Uint32 (take 4 (drop 4 bs))),
                 Offset = uint (Uint32 (take 4 (drop 8 bs))) \<rparr>)"

text \<open>\<^verbatim>\<open>encoding/hex\<close>: lower-case output, both cases accepted on input.\<close>

definition hextable :: string where
  "hextable = ''0123456789abcdef''"

definition hex_EncodeToString :: "byte list \<Rightarrow> string" where
  "hex_EncodeToString bs =
     concat (map (\<lambda>v. [hextable ! unat (drop_bit 4 v), hextable ! unat (v AND 0x0f)]) bs)"

definition fromHexChar :: "char \<Rightarrow> byte option" where
  "fromHexChar c =
     (let n = (of_char c :: nat) in
      if 48 \<le> n \<and> n \<le> 57 then Some (of_nat (n - 48))
      else if 97 \<le> n \<and> n \<le> 102 then Some (of_nat (n - 97 + 10))
      else if 65 \<le> n \<and> n \<le> 70 then Some (of_nat (n - 65 + 10))
      else None)"

fun hex_DecodeString :: "string \<Rightarrow> error + byte list" where
  "hex_DecodeString [] = Inr []"
| "hex_DecodeString [p] =
     (case fromHexChar p of None \<Rightarrow> Inl (hex_InvalidByteError p) | Some a \<Rightarrow> Inl hex_ErrLength)"
| "hex_DecodeString (p # q # rest) =
     (case fromHexChar p of
        None \<Rightarrow> Inl (hex_InvalidByteError p)
      | Some a \<Rightarrow>
          (case fromHexChar q of
             None \<Rightarrow> Inl (hex_InvalidByteError q)
           | Some b \<Rightarrow>
               (case hex_DecodeString rest of
                  Inl e \<Rightarrow> Inl e
                | Inr bs \<Rightarrow> Inr ((push_bit 4 a OR b) # bs))))"

definition Position_EncodeString :: "Position \<Rightarrow> string" where
  "Position_EncodeString p = hex_EncodeToString (Position_Encode p)"

definition Position_DecodeString :: "string \<Rightarrow> error + Position" where
  "Position_DecodeString str =
     (case hex_DecodeString str of Inl err \<Rightarrow> Inl err | Inr bs \<Rightarrow> Position_Decode bs)"

text \<open>
  The specification names error kinds, the Go code returns plain error values. Its kind
  \<open>InvalidFormat\<close> is described as "position decode with wrong byte length or bad hex":
  the value of \<^verbatim>\<open>errors.New("invalid format")\<close> and the two errors of the hex decoder.
\<close>

fun InvalidFormat :: "error \<Rightarrow> bool" where
  "InvalidFormat ErrInvalidFormat = True"
| "InvalidFormat hex_ErrLength = True"
| "InvalidFormat (hex_InvalidByteError c) = True"
| "InvalidFormat e = False"

definition fits_u32 :: "Position \<Rightarrow> bool" where
  "fits_u32 p \<longleftrightarrow> 0 \<le> SegmentId p \<and> SegmentId p < 2 ^ 32 \<and> 0 \<le> BlockId p \<and> BlockId p < 2 ^ 32
     \<and> 0 \<le> Offset p \<and> Offset p < 2 ^ 32"

definition valid_hex24 :: "string \<Rightarrow> bool" where
  "valid_hex24 str \<longleftrightarrow> length str = 24 \<and> list_all (\<lambda>c. fromHexChar c \<noteq> None) str"

section \<open>Segment\<close>

definition NewSegment :: "int \<Rightarrow> byte list \<Rightarrow> Segment" where
  "NewSegment ident file =
     (let offset = length file;
          blockCount = offset div blockSize;
          blockOccupy = offset mod blockSize;
          blockData = (if blockOccupy \<noteq> 0 then take blockOccupy (drop (offset - blockOccupy) file) else [])
      in \<lparr> seg_id = ident, fd = file, closed = False,
           currentBlock = \<lparr> blk_id = int blockCount, blk_data = blockData, flushed = length blockData \<rparr>,
           cachedBlock = \<lparr> blk_id = - 1, blk_data = replicate blockSize 0, flushed = 0 \<rparr> \<rparr>)"

definition Segment_Size :: "Segment \<Rightarrow> int" where
  "Segment_Size s =
     (if flushed (currentBlock s) = 0 then blk_id (currentBlock s) * int blockSize
      else if blk_id (currentBlock s) \<le> 0 then int (flushed (currentBlock s))
      else (blk_id (currentBlock s) - 1) * int blockSize + int (flushed (currentBlock s)))"

definition Segment_Id :: "Segment \<Rightarrow> int" where
  "Segment_Id s = seg_id s"

text \<open>
  \<^verbatim>\<open>writeChunk\<close> appends the 7-byte header and the payload to the buffer of the current block
  and returns the position of the header. The length field is \<^verbatim>\<open>uint16(len(data))\<close>.
\<close>

definition chunk_header :: "byte list \<Rightarrow> ChunkType \<Rightarrow> byte list" where
  "chunk_header bs t = PutUint32 (ChecksumIEEE bs) @ PutUint16 (of_nat (length bs)) @ [t]"

definition writeChunk :: "Segment \<Rightarrow> byte list \<Rightarrow> ChunkType \<Rightarrow> Segment \<times> Position" where
  "writeChunk s bs t =
     (let header = chunk_header bs t;
          offset = length (blk_data (currentBlock s));
          cb = (currentBlock s)\<lparr> blk_data := blk_data (currentBlock s) @ header @ bs \<rparr>
      in (s\<lparr> currentBlock := cb \<rparr>,
          \<lparr> SegmentId = seg_id s, BlockId = blk_id (currentBlock s), Offset = int offset \<rparr>))"

text \<open>
  \<^verbatim>\<open>flushBlock\<close>: the slice expression \<^verbatim>\<open>data[flushed:]\<close> panics when \<open>flushed\<close> exceeds
  the length of the buffer.
\<close>

definition flushBlock :: "Segment \<Rightarrow> bool \<Rightarrow> error + Segment" where
  "flushBlock s padding =
     (let cb = currentBlock s in
      if flushed cb > length (blk_data cb) then Inl Panic
      else if length (drop (flushed cb) (blk_data cb)) = 0 \<and> \<not> padding then Inr s
      else
        let cb1 = (if padding \<and> length (blk_data cb) < blockSize
                   then cb\<lparr> blk_data := blk_data cb @ replicate (blockSize - length (blk_data cb)) 0 \<rparr>
                   else cb);
            bs = drop (flushed cb1) (blk_data cb1);
            n = length bs;
            cb2 = cb1\<lparr> flushed := flushed cb1 + n \<rparr>;
            cb3 = (if flushed cb2 = blockSize
                   then cb2\<lparr> blk_id := blk_id cb2 + 1, flushed := 0, blk_data := [] \<rparr>
                   else cb2)
        in Inr (s\<lparr> fd := fd s @ bs, currentBlock := cb3 \<rparr>))"

text \<open>
  \<^verbatim>\<open>splitIntoChunks\<close>: an optional first chunk for the room left in the current block,
  then the loop over the remaining payload. \<open>remainingSpace\<close> is a signed Go \<^verbatim>\<open>int\<close>.
\<close>

function split_loop :: "byte list \<Rightarrow> nat \<Rightarrow> nat \<Rightarrow> chunk list \<Rightarrow> chunk list" where
  "split_loop bs offset remaining chunks =
     (if remaining > 0 then
        let chunkSize = (if blockSize - chunkHeaderSize > remaining then remaining
                         else blockSize - chunkHeaderSize);
            t = (if remaining = length bs \<and> chunkSize = length bs then kFullType
                 else if remaining = length bs then kFirstType
                 else if remaining = chunkSize then kLastType
                 else kMiddleType)
        in split_loop bs (offset + chunkSize) (remaining - chunkSize)
             (chunks @ [\<lparr> chk_data = take chunkSize (drop offset bs), chunkType = t \<rparr>])
      else chunks)"
  by pat_completeness auto
termination
  by (relation "measure (\<lambda>(bs, offset, remaining, chunks). remaining)")
     (auto simp: blockSize_def chunkHeaderSize_def)

definition splitIntoChunks :: "Segment \<Rightarrow> byte list \<Rightarrow> chunk list" where
  "splitIntoChunks s bs =
     (let remaining = length bs;
          remainingSpace = int blockSize - int (length (blk_data (currentBlock s))) - int chunkHeaderSize
      in if remainingSpace > 0 then
           let chunkSize = (if remainingSpace > int remaining then remaining else nat remainingSpace);
               t = (if remaining = length bs \<and> chunkSize = length bs then kFullType else kFirstType)
           in split_loop bs chunkSize (remaining - chunkSize)
                [\<lparr> chk_data = take chunkSize (drop 0 bs), chunkType = t \<rparr>]
         else split_loop bs 0 remaining [])"

text \<open>
  The loop of \<^verbatim>\<open>Segment.Write\<close>. The Go loop keeps the position returned by
  \<^verbatim>\<open>writeChunk\<close> only for \<open>i = 0\<close>; the loop here returns the positions of all chunks in
  order, and \<open>Segment_Write\<close> takes the first (\<open>None\<close> is Go's \<^verbatim>\<open>nil\<close>, returned when
  no chunk was produced).
\<close>

fun Write_loop :: "Segment \<Rightarrow> chunk list \<Rightarrow> error + (Segment \<times> Position list)" where
  "Write_loop s [] = Inr (s, [])"
| "Write_loop s (chk # rest) =
     (case (if length (blk_data (currentBlock s)) + chunkHeaderSize + length (chk_data chk) > blockSize
            then flushBlock s True else Inr s) of
        Inl err \<Rightarrow> Inl err
      | Inr s1 \<Rightarrow>
          (case writeChunk s1 (chk_data chk) (chunkType chk) of
             (s2, position) \<Rightarrow>
               (case Write_loop s2 rest of
                  Inl err \<Rightarrow> Inl err
                | Inr (s3, ps) \<Rightarrow> Inr (s3, position # ps))))"

definition Segment_Write :: "Segment \<Rightarrow> byte list \<Rightarrow> error + (Segment \<times> Position option)" where
  "Segment_Write s bs =
     (if closed s then Inl ErrClosed
      else case Write_loop s (splitIntoChunks s bs) of
             Inl err \<Rightarrow> Inl err
           | Inr (s1, ps) \<Rightarrow> Inr (s1, case ps of [] \<Rightarrow> None | p # _ \<Rightarrow> Some p))"

definition Segment_Sync :: "Segment \<Rightarrow> error + Segment" where
  "Segment_Sync s = (if closed s then Inl ErrClosed else flushBlock s False)"

definition Segment_Close :: "Segment \<Rightarrow> error + Segment" where
  "Segment_Close s =
     (if closed s then Inr s
      else case flushBlock s True of Inl err \<Rightarrow> Inl err | Inr s1 \<Rightarrow> Inr (s1\<lparr> closed := True \<rparr>))"

text \<open>
  \<^verbatim>\<open>readChunk\<close> parses one chunk at the start of a slice.
\<close>

definition readChunk :: "byte list \<Rightarrow> error + chunk" where
  "readChunk bs =
     (if length bs < chunkHeaderSize then Inl ErrEndOfBlock
      else
        let expectedCRC = Uint32 (take 4 bs);
            len = Uint16 (take 2 (drop 4 bs));
            t = bs ! 6
        in if unat len + chunkHeaderSize > length bs then Inl ErrEndOfBlock
           else
             let chunkData = take (unat len) (drop chunkHeaderSize bs);
                 actualCRC = ChecksumIEEE chunkData
             in if actualCRC \<noteq> expectedCRC then Inl ErrInvalidCRC
                else Inr \<lparr> chk_data = chunkData, chunkType = t \<rparr>)"

text \<open>
  \<^verbatim>\<open>readBlock\<close> serves the block from the one-slot cache when the ids agree. Otherwise it
  seeks, stores the requested id in the cache \<^emph>\<open>before\<close> reading, and fills the cache
  buffer with \<^verbatim>\<open>io.ReadFull\<close>: \<open>EOF\<close> when no byte could be read, \<^verbatim>\<open>ErrUnexpectedEOF\<close>
  (tolerated) when the file ends inside the block, in which case the rest of the buffer
  keeps its old bytes. The state is returned in every case, since the cache is changed
  also on the failing path.
\<close>

definition readBlock :: "Segment \<Rightarrow> int \<Rightarrow> Segment \<times> (error + byte list)" where
  "readBlock s blockID =
     (if closed s then (s, Inl ErrClosed)
      else if blk_id (cachedBlock s) = blockID then (s, Inr (blk_data (cachedBlock s)))
      else
        let blockOffset = blockID * int blockSize in
        if blockOffset < 0 then (s, Inl ErrSeek)
        else
          let buf = take blockSize (blk_data (cachedBlock s));
              avail = drop (nat blockOffset) (fd s);
              n = min (length buf) (length avail);
              buf1 = take n avail @ drop n buf;
              s1 = s\<lparr> cachedBlock := (cachedBlock s)\<lparr> blk_id := blockID, blk_data := buf1 \<rparr> \<rparr>
          in if n < length buf \<and> n = 0 then (s1, Inl EOF) else (s1, Inr buf1))"

text \<open>
  The loop of \<^verbatim>\<open>Segment.Read\<close> ends: every round either moves on inside the cached
  block or moves to the next block, and a block that lies behind the end of the file can
  be entered only through the one-slot cache. The facts about \<open>readBlock\<close> that the
  termination proof needs come first.
\<close>

lemma blockSize_pos: "0 < blockSize" by (simp add: blockSize_def)

lemma readBlock_hit: "\<not> closed s \<Longrightarrow> blk_id (cachedBlock s) = b \<Longrightarrow> readBlock s b = (s, Inr (blk_data (cachedBlock s)))"
  by (simp add: readBlock_def)

lemma readBlock_Inr_fd:
  "readBlock s b = (s1, r) \<Longrightarrow> fd s1 = fd s \<and> closed s1 = closed s \<and> currentBlock s1 = currentBlock s \<and> seg_id s1 = seg_id s"
  by (auto simp: readBlock_def Let_def split: if_splits)

lemma readBlock_Inr_cache:
  "readBlock s b = (s1, Inr d) \<Longrightarrow> blk_id (cachedBlock s1) = b \<and> d = blk_data (cachedBlock s1)"
  by (auto simp: readBlock_def Let_def split: if_splits)

lemma refill_length: "n \<le> length buf \<Longrightarrow> n \<le> length avail \<Longrightarrow> length (take n avail @ drop n buf) = length buf"
  by simp

lemma readBlock_Inr_len:
  assumes "readBlock s b = (s1, Inr d)"
  shows "length d \<le> max blockSize (length (blk_data (cachedBlock s)))"
proof (cases "blk_id (cachedBlock s) = b")
  case True
  with assms show ?thesis by (auto simp: readBlock_def split: if_splits)
next
  case False
  define buf where "buf = take blockSize (blk_data (cachedBlock s))"
  define avail where "avail = drop (nat (b * int blockSize)) (fd s)"
  define n where "n = min (length buf) (length avail)"
  from assms False have "d = take n avail @ drop n buf"
    by (auto simp: readBlock_def Let_def buf_def avail_def n_def split: if_splits)
  then have "length d = length buf" using refill_length[of n buf avail] by (simp add: n_def)
  then show ?thesis by (simp add: buf_def)
qed

lemma readBlock_Inr_miss:
  assumes "readBlock s b = (s1, Inr d)" "blk_id (cachedBlock s) \<noteq> b" "d \<noteq> []"
  shows "b * int blockSize < int (length (fd s))"
proof -
  from assms have nb: "\<not> b * int blockSize < 0"
    by (auto simp: readBlock_def Let_def split: if_splits)
  define buf where "buf = take blockSize (blk_data (cachedBlock s))"
  define avail where "avail = drop (nat (b * int blockSize)) (fd s)"
  define n where "n = min (length buf) (length avail)"
  from assms nb have d: "d = take n avail @ drop n buf" and n: "\<not> (n < length buf \<and> n = 0)"
    by (auto simp: readBlock_def Let_def buf_def avail_def n_def split: if_splits)
  have "n \<noteq> 0"
  proof
    assume "n = 0"
    with n have "length buf = 0" by simp
    moreover from d \<open>n = 0\<close> have "d = buf" by simp
    ultimately show False using assms(3) by simp
  qed
  then have "avail \<noteq> []" by (auto simp: n_def)
  then have "nat (b * int blockSize) < length (fd s)" by (simp add: avail_def)
  with nb show ?thesis by linarith
qed

lemma readChunk_Inr:
  "readChunk bs = Inr chk \<Longrightarrow> length (chk_data chk) + chunkHeaderSize \<le> length bs"
  by (auto simp: readChunk_def Let_def split: if_splits)


definition blocks_left :: "Segment \<Rightarrow> int \<Rightarrow> nat" where
  "blocks_left s b = nat (int (length (fd s)) - b * int blockSize)"

definition beyond_hit :: "Segment \<Rightarrow> int \<Rightarrow> nat" where
  "beyond_hit s b =
     (if blk_id (cachedBlock s) = b \<and> int (length (fd s)) \<le> b * int blockSize then 1 else 0)"

definition room_left :: "Segment \<Rightarrow> int \<Rightarrow> nat" where
  "room_left s off = max blockSize (length (blk_data (cachedBlock s))) - nat off"

lemma blocks_left_next:
  assumes "b * int blockSize < int (length (fd s))" "fd s1 = fd s"
  shows "blocks_left s1 (b + 1) < blocks_left s b"
proof -
  have "(b + 1) * int blockSize = b * int blockSize + int blockSize" by (simp add: algebra_simps)
  moreover have "0 < int blockSize" using blockSize_pos by simp
  ultimately show ?thesis using assms(1) unfolding blocks_left_def assms(2) by linarith
qed

lemma blocks_left_beyond:
  assumes "\<not> b * int blockSize < int (length (fd s))"
  shows "blocks_left s (b + 1) = blocks_left s b"
proof -
  have "(b + 1) * int blockSize = b * int blockSize + int blockSize" by (simp add: algebra_simps)
  moreover have "0 < int blockSize" using blockSize_pos by simp
  ultimately show ?thesis using assms unfolding blocks_left_def by linarith
qed

text \<open>
  A negative \<open>Offset\<close> passes the range check and panics at the slice expression
  \<^verbatim>\<open>blockData[currPos.Offset:]\<close>.
\<close>

function Read_loop :: "Segment \<Rightarrow> Position \<Rightarrow> byte list \<Rightarrow> Segment \<times> (error + byte list)" where
  "Read_loop s currPos entry =
     (case readBlock s (BlockId currPos) of
        (s1, Inl err) \<Rightarrow> (s1, Inl err)
      | (s1, Inr blockData) \<Rightarrow>
          if Offset currPos \<ge> int (length blockData) then (s1, Inl ErrEndOfBlock)
          else if Offset currPos < 0 then (s1, Inl Panic)
          else
            (case readChunk (drop (nat (Offset currPos)) blockData) of
               Inl err \<Rightarrow> (s1, Inl err)
             | Inr chk \<Rightarrow>
                 if length (chk_data chk) = 0 then (s1, Inl EOF)
                 else if length entry = 0 \<and> chunkType chk \<noteq> kFullType \<and> chunkType chk \<noteq> kFirstType
                   then (s1, Inl (ErrInvalidFirstChunkType (chunkType chk)))
                 else if length entry \<noteq> 0 \<and> chunkType chk \<noteq> kMiddleType \<and> chunkType chk \<noteq> kLastType
                   then (s1, Inl (ErrInvalidChunkType (chunkType chk)))
                 else
                   let entry1 = entry @ chk_data chk in
                   if chunkType chk = kLastType \<or> chunkType chk = kFullType then (s1, Inr entry1)
                   else
                     let off = Offset currPos + int (chunkHeaderSize + length (chk_data chk)) in
                     if off \<ge> int (length blockData)
                     then Read_loop s1 (currPos\<lparr> BlockId := BlockId currPos + 1, Offset := 0 \<rparr>) entry1
                     else Read_loop s1 (currPos\<lparr> Offset := off \<rparr>) entry1))"
  by pat_completeness auto
termination
proof (relation "measures [\<lambda>(s, p, e). blocks_left s (BlockId p), \<lambda>(s, p, e). beyond_hit s (BlockId p),
          \<lambda>(s, p, e). room_left s (Offset p)]", goal_cases)
  case 1
  show ?case by simp
next
  case (2 s currPos entry s1 y blockData chk entry1 off)
  from 2(1,2) have rb: "readBlock s (BlockId currPos) = (s1, Inr blockData)" by simp
  from 2(3,4) have ne: "blockData \<noteq> []" by auto
  have "blocks_left s1 (BlockId currPos + 1) < blocks_left s (BlockId currPos)
    \<or> (blocks_left s1 (BlockId currPos + 1) = blocks_left s (BlockId currPos)
        \<and> beyond_hit s1 (BlockId currPos + 1) < beyond_hit s (BlockId currPos))"
  proof (cases "blk_id (cachedBlock s) = BlockId currPos")
    case True
    with rb have eq: "s1 = s" by (auto simp: readBlock_def split: if_splits)
    show ?thesis
    proof (cases "BlockId currPos * int blockSize < int (length (fd s))")
      case True
      then show ?thesis using blocks_left_next[of "BlockId currPos" s s] eq by simp
    next
      case False
      then have "blocks_left s (BlockId currPos + 1) = blocks_left s (BlockId currPos)"
        by (rule blocks_left_beyond)
      moreover have "beyond_hit s (BlockId currPos + 1) < beyond_hit s (BlockId currPos)"
        using False \<open>blk_id (cachedBlock s) = BlockId currPos\<close> by (simp add: beyond_hit_def)
      ultimately show ?thesis using eq by simp
    qed
  next
    case False
    from readBlock_Inr_miss[OF rb False ne] readBlock_Inr_fd[OF rb]
    show ?thesis by (simp add: blocks_left_next)
  qed
  then show ?case by auto
next
  case (3 s currPos entry s1 y blockData chk entry1 off)
  from 3(1,2) have rb: "readBlock s (BlockId currPos) = (s1, Inr blockData)" by simp
  from 3(3,4) have ne: "blockData \<noteq> []" by auto
  from readBlock_Inr_cache[OF rb] have bd: "blockData = blk_data (cachedBlock s1)" by simp
  have room: "room_left s1 off < room_left s (Offset currPos)"
    using readBlock_Inr_len[OF rb] 3(3,4,11,12) bd
    by (simp add: room_left_def chunkHeaderSize_def)
  have fdeq: "fd s1 = fd s" using readBlock_Inr_fd[OF rb] by simp
  have "beyond_hit s1 (BlockId currPos) = beyond_hit s (BlockId currPos)"
  proof (cases "blk_id (cachedBlock s) = BlockId currPos")
    case True
    with rb have "s1 = s" by (auto simp: readBlock_def split: if_splits)
    then show ?thesis by simp
  next
    case False
    from readBlock_Inr_miss[OF rb False ne] fdeq False
    show ?thesis by (simp add: beyond_hit_def)
  qed
  moreover have "blocks_left s1 (BlockId currPos) = blocks_left s (BlockId currPos)"
    using fdeq by (simp add: blocks_left_def)
  ultimately show ?case using room by simp
qed

definition Segment_Read :: "Segment \<Rightarrow> Position \<Rightarrow> Segment \<times> (error + byte list)" where
  "Segment_Read s pos =
     Read_loop s \<lparr> SegmentId = SegmentId pos, BlockId = BlockId pos, Offset = Offset pos \<rparr> []"

declare Read_loop.simps [simp del] split_loop.simps [simp del]

section \<open>The log over its segments, and the streaming reader\<close>

text \<open>
  \<^verbatim>\<open>w.segment\<close> points to the segment that is also stored in \<^verbatim>\<open>w.segments\<close> under its
  id; the model keeps the key. The directory is the list of the files \<^verbatim>\<open>seg_{id}.log\<close>
  with their contents. On rotation the file of the new segment is empty unless a segment
  with that id is already open, in which case it is that segment's file.
  The mutex, the ticker and the periodic sync are not modelled: the operations below are
  the bodies that run under the lock, one after the other.
\<close>

record WAL =
  SegmentSize :: int
  segment :: int
  segments :: "(int, Segment) fmap"

record Reader =
  r_pos :: Position
  r_current :: int
  r_closed :: bool

definition Open :: "int \<Rightarrow> (int \<times> byte list) list \<Rightarrow> WAL" where
  "Open segment_size dir =
     (let segIds = sort (map fst dir) in
      if length segIds = 0 then
        \<lparr> SegmentSize = segment_size, segment = 0, segments = fmupd 0 (NewSegment 0 []) fmempty \<rparr>
      else
        \<lparr> SegmentSize = segment_size, segment = last segIds,
          segments = foldl (\<lambda>m segId. fmupd segId
                        (NewSegment segId (case map_of dir segId of None \<Rightarrow> [] | Some file \<Rightarrow> file)) m)
                      fmempty segIds \<rparr>)"

definition WAL_Read :: "WAL \<Rightarrow> Position \<Rightarrow> WAL \<times> (error + byte list)" where
  "WAL_Read w pos =
     (case fmlookup (segments w) (SegmentId pos) of
        None \<Rightarrow> (w, Inl ErrSegmentNotFound)
      | Some seg \<Rightarrow>
          (case Segment_Read seg pos of
             (seg1, res) \<Rightarrow> (w\<lparr> segments := fmupd (SegmentId pos) seg1 (segments w) \<rparr>, res)))"

definition WAL_rotate :: "WAL \<Rightarrow> error + WAL" where
  "WAL_rotate w =
     (case fmlookup (segments w) (segment w) of
        None \<Rightarrow> Inl Panic
      | Some seg \<Rightarrow>
          (case Segment_Sync seg of
             Inl err \<Rightarrow> Inl err
           | Inr seg1 \<Rightarrow>
               let segs1 = fmupd (segment w) seg1 (segments w);
                   segId = Segment_Id seg1 + 1;
                   file = (case fmlookup segs1 segId of None \<Rightarrow> [] | Some old \<Rightarrow> fd old);
                   seg2 = NewSegment segId file
               in Inr (w\<lparr> segments := fmupd segId seg2 segs1, segment := segId \<rparr>)))"

definition WAL_Write :: "WAL \<Rightarrow> byte list \<Rightarrow> error + (WAL \<times> Position option)" where
  "WAL_Write w bs =
     (case fmlookup (segments w) (segment w) of
        None \<Rightarrow> Inl Panic
      | Some seg \<Rightarrow>
          (case (if Segment_Size seg \<ge> SegmentSize w
                 then (case WAL_rotate w of Inl err \<Rightarrow> Inl (ErrRotation err) | Inr w1 \<Rightarrow> Inr w1)
                 else Inr w) of
             Inl err \<Rightarrow> Inl err
           | Inr w1 \<Rightarrow>
               (case fmlookup (segments w1) (segment w1) of
                  None \<Rightarrow> Inl Panic
                | Some seg1 \<Rightarrow>
                    (case Segment_Write seg1 bs of
                       Inl err \<Rightarrow> Inl err
                     | Inr (seg2, pos) \<Rightarrow>
                         Inr (w1\<lparr> segments := fmupd (segment w1) seg2 (segments w1) \<rparr>, pos)))))"

definition WAL_Sync :: "WAL \<Rightarrow> error + WAL" where
  "WAL_Sync w =
     (case fmlookup (segments w) (segment w) of
        None \<Rightarrow> Inl Panic
      | Some seg \<Rightarrow>
          (case Segment_Sync seg of
             Inl err \<Rightarrow> Inl err
           | Inr seg1 \<Rightarrow> Inr (w\<lparr> segments := fmupd (segment w) seg1 (segments w) \<rparr>)))"

text \<open>
  The reader keeps a pointer to its current segment (again the key) and its position.
  \<^verbatim>\<open>Next\<close> moves to the segment with the next id when the current one answers \<open>EOF\<close>;
  the loop ends because the map of segments is finite.
\<close>

definition NewReader :: "WAL \<Rightarrow> Position \<Rightarrow> error + Reader" where
  "NewReader w pos =
     (case fmlookup (segments w) (SegmentId pos) of
        None \<Rightarrow> Inl ErrSegmentNotFound
      | Some seg \<Rightarrow> Inr \<lparr> r_pos = pos, r_current = SegmentId pos, r_closed = False \<rparr>)"

function Next_loop :: "WAL \<Rightarrow> Reader \<Rightarrow> (WAL \<times> Reader) \<times> (error + byte list)" where
  "Next_loop w r =
     (case fmlookup (segments w) (r_current r) of
        None \<Rightarrow> ((w, r), Inl Panic)
      | Some cur \<Rightarrow>
          (case Segment_Read cur (r_pos r) of
             (cur1, Inl err) \<Rightarrow>
               let w1 = w\<lparr> segments := fmupd (r_current r) cur1 (segments w) \<rparr> in
               if err = EOF \<or> err = ErrUnexpectedEOF then
                 let nextSegmentId = SegmentId (r_pos r) + 1 in
                 (case fmlookup (segments w1) nextSegmentId of
                    None \<Rightarrow> ((w1, r\<lparr> r_closed := True \<rparr>), Inl EOF)
                  | Some nextSegment \<Rightarrow>
                      Next_loop w1 (r\<lparr> r_current := nextSegmentId,
                        r_pos := \<lparr> SegmentId = nextSegmentId, BlockId = 0, Offset = 0 \<rparr> \<rparr>))
               else ((w1, r), Inl err)
           | (cur1, Inr entry) \<Rightarrow>
               let w1 = w\<lparr> segments := fmupd (r_current r) cur1 (segments w) \<rparr>;
                   off = Offset (r_pos r) + int (chunkHeaderSize + length entry);
                   pos1 = (if off \<ge> int blockSize
                           then (r_pos r)\<lparr> BlockId := BlockId (r_pos r) + 1, Offset := 0 \<rparr>
                           else (r_pos r)\<lparr> Offset := off \<rparr>)
               in ((w1, r\<lparr> r_pos := pos1 \<rparr>), Inr entry)))"
  by pat_completeness auto
termination
proof (relation "measure (\<lambda>(w, r). card {k \<in> fmdom' (segments w). SegmentId (r_pos r) < k})", goal_cases)
  case 1
  show ?case by simp
next
  case (2 w r cur cur1 y err w1 nextSegmentId nextSegment)
  let ?A = "{k \<in> fmdom' (segments w). SegmentId (r_pos r) < k}"
  let ?B = "{k \<in> fmdom' (segments w1). nextSegmentId < k}"
  have cur_in: "r_current r \<in> fmdom' (segments w)" using 2(1) by (rule fmdom'I)
  have w1: "w1 = w\<lparr> segments := fmupd (r_current r) cur1 (segments w) \<rparr>" using 2 by simp
  have dom: "fmdom' (segments w1) = fmdom' (segments w)"
    unfolding w1 using cur_in by (simp add: insert_absorb)
  have nxt: "nextSegmentId = SegmentId (r_pos r) + 1" using 2 by simp
  have "\<exists>v. fmlookup (segments w1) nextSegmentId = Some v" using 2 by blast
  then have mem: "nextSegmentId \<in> fmdom' (segments w1)" by (auto intro: fmdom'I)
  have "?B \<subset> ?A" using dom mem nxt by auto
  moreover have "finite ?A" by simp
  ultimately have "card ?B < card ?A" by (rule psubset_card_mono[rotated])
  then show ?case by simp
qed

definition Reader_Next :: "WAL \<Rightarrow> Reader \<Rightarrow> (WAL \<times> Reader) \<times> (error + byte list)" where
  "Reader_Next w r = (if r_closed r then ((w, r), Inl EOF) else Next_loop w r)"

declare Next_loop.simps [simp del]

section \<open>Concrete runs\<close>

definition bytes_of :: "string \<Rightarrow> byte list" where
  "bytes_of str = map of_char str"

lemmas seg_defs = Segment_Write_def splitIntoChunks_def writeChunk_def flushBlock_def chunk_header_def
  PutUint32_def PutUint16_def Uint32_def Uint16_def ChecksumIEEE_def crc_byte_def crc_step_def
  blockSize_def chunkHeaderSize_def kFullType_def kFirstType_def kMiddleType_def kLastType_def
  NewSegment_def Segment_Size_def Segment_Sync_def Let_def Segment_Id_def
  readBlock_def readChunk_def Segment_Read_def Read_loop.simps split_loop.simps

lemmas wal_defs = Open_def WAL_Write_def WAL_Sync_def WAL_Read_def WAL_rotate_def NewReader_def
  Reader_Next_def Next_loop.simps

text \<open>
  The run of the reader test: three writes to a log opened on an empty directory, a sync,
  a reader created at the first position, four calls of \<^verbatim>\<open>Next\<close>.
\<close>

definition reader_scenario :: "(error + byte list) list option" where
  "reader_scenario =
     (case WAL_Write (Open (2 ^ 30) []) (bytes_of ''entry1'') of
        Inr (w1, Some pos1) \<Rightarrow>
          (case WAL_Write w1 (bytes_of ''entry2'') of
             Inr (w2, pos2) \<Rightarrow>
               (case WAL_Write w2 (bytes_of ''entry3'') of
                  Inr (w3, pos3) \<Rightarrow>
                    (case WAL_Sync w3 of
                       Inr w4 \<Rightarrow>
                         (case NewReader w4 pos1 of
                            Inr r0 \<Rightarrow>
                              (case Reader_Next w4 r0 of
                                 ((w5, r1), res1) \<Rightarrow>
                                   (case Reader_Next w5 r1 of
                                      ((w6, r2), res2) \<Rightarrow>
                                        (case Reader_Next w6 r2 of
                                           ((w7, r3), res3) \<Rightarrow>
                                             (case Reader_Next w7 r3 of
                                                ((w8, r4), res4) \<Rightarrow> Some [res1, res2, res3, res4]))))
                          | Inl err \<Rightarrow> None)
                     | Inl err \<Rightarrow> None)
                | Inl err \<Rightarrow> None)
           | Inl err \<Rightarrow> None)
      | _ \<Rightarrow> None)"

text \<open>
  The run behind the stale cache: write, sync, read (which caches block 0), a second write
  into the same block, sync, and a read at the second position. The result holds both
  positions, both read results and the file at the end.
\<close>

definition stale_scenario :: "(Position \<times> Position \<times> (error + byte list) \<times> (error + byte list) \<times> byte list) option" where
  "stale_scenario =
     (case Segment_Write (NewSegment 0 []) (bytes_of ''e1'') of
        Inr (s1, Some pos1) \<Rightarrow>
          (case Segment_Sync s1 of
             Inr s2 \<Rightarrow>
               (case Segment_Read s2 pos1 of
                  (s3, res1) \<Rightarrow>
                    (case Segment_Write s3 (bytes_of ''e2'') of
                       Inr (s4, Some pos2) \<Rightarrow>
                         (case Segment_Sync s4 of
                            Inr s5 \<Rightarrow>
                              (case Segment_Read s5 pos2 of
                                 (s6, res2) \<Rightarrow> Some (pos1, pos2, res1, res2, fd s6))
                          | Inl err \<Rightarrow> None)
                     | _ \<Rightarrow> None))
           | Inl err \<Rightarrow> None)
      | _ \<Rightarrow> None)"

section \<open>Size of a segment\<close>

text \<open>
  C2. The claim: for a segment whose current block has id \<open>b\<close> and flushed watermark \<open>f\<close>,
  \<open>Size()\<close> is \<open>b * blockSize + f\<close>, the size of the file. The code returns
  \<open>(b - 1) * blockSize + f\<close> when \<open>b > 0\<close> and \<open>f > 0\<close>: a segment opened on a file of
  32773 bytes (one whole block and five bytes) reports the size 5.
\<close>

theorem Size_after_open_one_block_and_5:
  "Segment_Size (NewSegment 0 (replicate 32773 0)) = 5
   \<and> blk_id (currentBlock (NewSegment 0 (replicate 32773 0))) = 1
   \<and> flushed (currentBlock (NewSegment 0 (replicate 32773 0))) = 5
   \<and> length (fd (NewSegment 0 (replicate 32773 0))) = 32773"
  by (simp add: Segment_Size_def NewSegment_def blockSize_def Let_def)


section \<open>Round trip without a sync\<close>

text \<open>
  C1. The claim: a \<open>Read\<close> at the position returned by a \<open>Write\<close>, called immediately
  afterwards with no sync in between, returns the bytes written. \<open>readBlock\<close> reads the
  file only, never the buffer of the current block: on a log opened on an empty directory
  the write of "hello, world" (the example of the README) is followed by a \<open>Read\<close> that
  fails with \<open>EOF\<close>.
\<close>

theorem Read_after_Write_without_Sync:
  "(case WAL_Write (Open (2 ^ 30) []) (bytes_of ''hello, world'') of
      Inr (w1, Some pos) \<Rightarrow> snd (WAL_Read w1 pos) = Inl EOF
    | _ \<Rightarrow> False)"
  by (simp add: seg_defs wal_defs bytes_of_def)

section \<open>Rotation\<close>

text \<open>
  C3. The claim: with \<open>segment_size = 20\<close> the write of "first entry" and the write of
  "second entry that triggers rotation" return positions in different segments. Before
  the second write the active segment reports the size 0 (nothing is flushed, and the
  18 bytes buffered are fewer than 20 anyway), so no rotation happens: both positions
  are in segment 0, which is still the active segment.
\<close>

theorem no_rotation_at_segment_size_20:
  "(case WAL_Write (Open 20 []) (bytes_of ''first entry'') of
      Inr (w1, Some A) \<Rightarrow>
        (case WAL_Write w1 (bytes_of ''second entry that triggers rotation'') of
           Inr (w2, Some B) \<Rightarrow> SegmentId A = 0 \<and> SegmentId B = 0 \<and> segment w2 = 0
         | _ \<Rightarrow> False)
    | _ \<Rightarrow> False)"
  by (simp add: seg_defs wal_defs bytes_of_def)

section \<open>The streaming reader on three entries\<close>

text \<open>
  C4. Starting from an empty directory, after the writes of "entry1", "entry2", "entry3"
  and a sync, a reader created at the first position returns "entry1", "entry2", "entry3"
  and then \<open>EOF\<close>.
\<close>

theorem reader_returns_three_entries_then_EOF:
  "reader_scenario =
     Some [Inr (bytes_of ''entry1''), Inr (bytes_of ''entry2''), Inr (bytes_of ''entry3''), Inl EOF]"
  unfolding reader_scenario_def
  by (simp add: seg_defs wal_defs bytes_of_def)

section \<open>Position codec: round trip and failures\<close>

lemma byte_bit_high: "bit (a :: byte) n \<Longrightarrow> n < 8"
  using bit_imp_le_length[of a n] by simp

lemma Uint32_PutUint32: "Uint32 (PutUint32 v) = v"
  unfolding Uint32_def PutUint32_def
proof (rule bit_word_eqI)
  fix n assume "n < LENGTH(32)"
  then have n: "n < 32" by simp
  consider "n < 8" | "8 \<le> n" "n < 16" | "16 \<le> n" "n < 24" | "24 \<le> n" using n by linarith
  then show "bit (ucast ([ucast v, ucast (drop_bit 8 v), ucast (drop_bit 16 v), ucast (drop_bit 24 v) :: byte] ! 0) OR
            push_bit 8 (ucast ([ucast v, ucast (drop_bit 8 v), ucast (drop_bit 16 v), ucast (drop_bit 24 v) :: byte] ! 1)) OR
            push_bit 16 (ucast ([ucast v, ucast (drop_bit 8 v), ucast (drop_bit 16 v), ucast (drop_bit 24 v) :: byte] ! 2)) OR
            push_bit 24 (ucast ([ucast v, ucast (drop_bit 8 v), ucast (drop_bit 16 v), ucast (drop_bit 24 v) :: byte] ! 3)) :: 32 word) n = bit v n"
    using n by cases (auto simp add: bit_simps)
qed

lemma PutUint32_Uint32: "PutUint32 (Uint32 [a, b, c, d]) = [a, b, c, d]"
  unfolding Uint32_def PutUint32_def
  apply simp
  apply (intro conjI; rule bit_word_eqI)
     apply (auto simp add: bit_simps dest: byte_bit_high)
  done

lemma uint_of_int_u32: "0 \<le> x \<Longrightarrow> x < 2 ^ 32 \<Longrightarrow> uint (of_int x :: 32 word) = x"
  by (simp add: uint_word_of_int_eq take_bit_int_eq_self)

lemma length_PutUint32: "length (PutUint32 v) = 4"
  by (simp add: PutUint32_def)

lemma Decode_Encode:
  assumes "fits_u32 p"
  shows "Position_Decode (Position_Encode p) = Inr p"
  using assms
  by (simp add: Position_Decode_def Position_Encode_def length_PutUint32 Uint32_PutUint32 uint_of_int_u32 fits_u32_def)

lemma hex_DecodeString_Inl: "hex_DecodeString str = Inl e \<Longrightarrow> InvalidFormat e"
  by (induction str arbitrary: e rule: hex_DecodeString.induct) (auto split: option.splits sum.splits)

lemma hex_DecodeString_Inr:
  "hex_DecodeString str = Inr bs \<Longrightarrow> length str = 2 * length bs \<and> list_all (\<lambda>c. fromHexChar c \<noteq> None) str"
  by (induction str arbitrary: bs rule: hex_DecodeString.induct) (auto split: option.splits sum.splits)

lemma hex_DecodeString_valid:
  "list_all (\<lambda>c. fromHexChar c \<noteq> None) str \<Longrightarrow> even (length str) \<Longrightarrow> \<exists>bs. hex_DecodeString str = Inr bs \<and> 2 * length bs = length str"
proof (induction str rule: hex_DecodeString.induct)
  case 1
  show ?case by simp
next
  case (2 p)
  then show ?case by simp
next
  case (3 p q rest)
  from "3.prems" obtain a b where ab: "fromHexChar p = Some a" "fromHexChar q = Some b" by auto
  from "3.prems" have "list_all (\<lambda>c. fromHexChar c \<noteq> None) rest" "even (length rest)" by auto
  with "3.IH"[OF ab] obtain bs where "hex_DecodeString rest = Inr bs" "2 * length bs = length rest"
    by blast
  with ab show ?case by simp
qed

text \<open>
  C8. For a position whose three components fit in 32 bits, \<open>Encode\<close> yields 12 bytes and
  \<open>Decode\<close> gives the position back; \<open>Decode\<close> fails, with the invalid-format error,
  exactly when its input is not 12 bytes long; decoding a string that is not valid hex of
  length 24 fails with an error of the kind \<open>InvalidFormat\<close> (the error of the hex decoder
  when the string is not valid hex, the invalid-format error when it is valid hex of
  another length), and a valid string of length 24 is decoded.
\<close>

theorem Position_codec:
  "(fits_u32 p \<longrightarrow> length (Position_Encode p) = 12 \<and> Position_Decode (Position_Encode p) = Inr p)
   \<and> ((\<exists>e. Position_Decode bs = Inl e) \<longleftrightarrow> length bs \<noteq> 12)
   \<and> (length bs \<noteq> 12 \<longrightarrow> Position_Decode bs = Inl ErrInvalidFormat)
   \<and> (\<not> valid_hex24 str \<longrightarrow> (\<exists>e. Position_DecodeString str = Inl e \<and> InvalidFormat e))
   \<and> (valid_hex24 str \<longrightarrow> (\<exists>q. Position_DecodeString str = Inr q))"
proof (intro conjI impI)
  assume "fits_u32 p"
  then show "Position_Decode (Position_Encode p) = Inr p" by (rule Decode_Encode)
next
  show "length (Position_Encode p) = 12" by (simp add: Position_Encode_def length_PutUint32)
next
  show "(\<exists>e. Position_Decode bs = Inl e) \<longleftrightarrow> length bs \<noteq> 12" by (simp add: Position_Decode_def)
next
  assume "length bs \<noteq> 12"
  then show "Position_Decode bs = Inl ErrInvalidFormat" by (simp add: Position_Decode_def)
next
  assume nv: "\<not> valid_hex24 str"
  show "\<exists>e. Position_DecodeString str = Inl e \<and> InvalidFormat e"
  proof (cases "hex_DecodeString str")
    case (Inl e)
    then show ?thesis using hex_DecodeString_Inl[OF Inl] by (simp add: Position_DecodeString_def)
  next
    case (Inr xs)
    from hex_DecodeString_Inr[OF Inr] nv have "length xs \<noteq> 12" by (auto simp: valid_hex24_def)
    then show ?thesis using Inr by (simp add: Position_DecodeString_def Position_Decode_def)
  qed
next
  assume v: "valid_hex24 str"
  then obtain xs where "hex_DecodeString str = Inr xs" "2 * length xs = length str"
    using hex_DecodeString_valid[of str] by (auto simp: valid_hex24_def)
  then show "\<exists>q. Position_DecodeString str = Inr q" using v
    by (simp add: Position_DecodeString_def Position_Decode_def valid_hex24_def)
qed

theorem Position_codec_witness:
  "fits_u32 \<lparr> SegmentId = 1, BlockId = 2, Offset = 300 \<rparr>
   \<and> Position_Encode \<lparr> SegmentId = 1, BlockId = 2, Offset = 300 \<rparr> = [1, 0, 0, 0, 2, 0, 0, 0, 44, 1, 0, 0]
   \<and> Position_Decode [1, 0, 0, 0, 2, 0, 0, 0, 44, 1, 0, 0] = Inr \<lparr> SegmentId = 1, BlockId = 2, Offset = 300 \<rparr>
   \<and> length [1, 2, 3 :: byte] \<noteq> 12 \<and> Position_Decode [1, 2, 3] = Inl ErrInvalidFormat
   \<and> \<not> valid_hex24 ''zz'' \<and> Position_DecodeString ''zz'' = Inl (hex_InvalidByteError CHR ''z'')
   \<and> valid_hex24 ''01000000020000002C010000''
   \<and> Position_DecodeString ''01000000020000002C010000'' = Inr \<lparr> SegmentId = 1, BlockId = 2, Offset = 300 \<rparr>
   \<and> Position_EncodeString \<lparr> SegmentId = 1, BlockId = 2, Offset = 300 \<rparr> = ''01000000020000002c010000''"
  using Position_codec [of "\<lparr> SegmentId = 1, BlockId = 2, Offset = 300 \<rparr>" "[1, 2, 3]" "''zz''"]
    Position_codec [of "\<lparr> SegmentId = 1, BlockId = 2, Offset = 300 \<rparr>" "[1, 2, 3]" "''01000000020000002C010000''"]
  by (simp add: fits_u32_def Position_Encode_def Position_Decode_def PutUint32_def Uint32_def valid_hex24_def
      fromHexChar_def Position_DecodeString_def Position_EncodeString_def hex_EncodeToString_def hextable_def)

section \<open>Writing an empty entry\<close>

lemma ChecksumIEEE_Nil: "ChecksumIEEE [] = 0"
  by (simp add: ChecksumIEEE_def)

lemma chunk_header_empty: "chunk_header [] kFullType = replicate 7 0"
  by (simp add: chunk_header_def ChecksumIEEE_Nil PutUint32_def PutUint16_def kFullType_def eval_nat_numeral)

text \<open>
  C7, as stated: \<open>Write\<close> with an empty byte sequence is rejected and leaves the segment
  unchanged, and no zero-length FULL chunk is ever appended. On a freshly opened empty
  segment the write succeeds and appends the seven zero bytes of a zero-length FULL chunk.
\<close>

theorem empty_Write_appends_empty_chunk:
  "Segment_Write (NewSegment 0 []) [] =
     Inr ((NewSegment 0 [])\<lparr> currentBlock := \<lparr> blk_id = 0, blk_data = [0, 0, 0, 0, 0, 0, 0], flushed = 0 \<rparr> \<rparr>,
          Some \<lparr> SegmentId = 0, BlockId = 0, Offset = 0 \<rparr>)"
  by (simp add: seg_defs)

text \<open>
  C7, amended: \<open>Write\<close> with an empty byte sequence on an open segment is not rejected.
  When the current block has room for more than a header, it appends a zero-length FULL
  chunk (seven zero bytes) and returns its position; otherwise it produces no chunk,
  leaves the segment unchanged and returns no position and no error.
\<close>

theorem empty_Write_not_rejected:
  assumes "\<not> closed s"
  shows "Segment_Write s [] =
     (if length (blk_data (currentBlock s)) + chunkHeaderSize < blockSize
      then Inr (s\<lparr> currentBlock := (currentBlock s)\<lparr> blk_data := blk_data (currentBlock s) @ replicate 7 0 \<rparr> \<rparr>,
                Some \<lparr> SegmentId = seg_id s, BlockId = blk_id (currentBlock s),
                       Offset = int (length (blk_data (currentBlock s))) \<rparr>)
      else Inr (s, None))"
proof (cases "length (blk_data (currentBlock s)) + chunkHeaderSize < blockSize")
  case True
  then have "splitIntoChunks s [] = [\<lparr> chk_data = [], chunkType = kFullType \<rparr>]"
    by (simp add: splitIntoChunks_def split_loop.simps Let_def)
  with True assms show ?thesis
    by (simp add: Segment_Write_def writeChunk_def chunk_header_empty Let_def)
next
  case False
  then have "splitIntoChunks s [] = []"
    by (simp add: splitIntoChunks_def split_loop.simps Let_def)
  with False assms show ?thesis by (simp add: Segment_Write_def)
qed

theorem empty_Write_not_rejected_witness:
  "\<not> closed (NewSegment 0 []) \<and>
   Segment_Write (NewSegment 0 []) [] =
     Inr ((NewSegment 0 [])\<lparr> currentBlock := \<lparr> blk_id = 0, blk_data = replicate 7 0, flushed = 0 \<rparr> \<rparr>,
          Some \<lparr> SegmentId = 0, BlockId = 0, Offset = 0 \<rparr>)"
proof -
  have h: "\<not> closed (NewSegment 0 [])" by (simp add: NewSegment_def)
  show ?thesis using h empty_Write_not_rejected [OF h]
    by (simp add: NewSegment_def blockSize_def chunkHeaderSize_def)
qed

section \<open>The read cache is never invalidated\<close>

lemma writeChunk_cached: "cachedBlock (fst (writeChunk s bs t)) = cachedBlock s"
  by (simp add: writeChunk_def Let_def)

lemma flushBlock_cached: "flushBlock s padding = Inr s1 \<Longrightarrow> cachedBlock s1 = cachedBlock s"
  by (auto simp: flushBlock_def Let_def split: if_splits)

lemma Write_loop_cached: "Write_loop s chunks = Inr (s1, ps) \<Longrightarrow> cachedBlock s1 = cachedBlock s"
proof (induction chunks arbitrary: s s1 ps)
  case Nil
  then show ?case by simp
next
  case (Cons chk rest)
  show ?case
  proof (cases "length (blk_data (currentBlock s)) + chunkHeaderSize + length (chk_data chk) > blockSize")
    case True
    with Cons.prems obtain sa where fl: "flushBlock s True = Inr sa" by (auto split: sum.splits)
    obtain sb position where wc: "writeChunk sa (chk_data chk) (chunkType chk) = (sb, position)" by fastforce
    with Cons.prems True fl obtain ps' where "Write_loop sb rest = Inr (s1, ps')"
      by (auto split: sum.splits prod.splits)
    from Cons.IH[OF this] writeChunk_cached[of sa "chk_data chk" "chunkType chk"] wc flushBlock_cached[OF fl]
    show ?thesis by simp
  next
    case False
    obtain sb position where wc: "writeChunk s (chk_data chk) (chunkType chk) = (sb, position)" by fastforce
    with Cons.prems False obtain ps' where "Write_loop sb rest = Inr (s1, ps')"
      by (auto split: sum.splits prod.splits)
    from Cons.IH[OF this] writeChunk_cached[of s "chk_data chk" "chunkType chk"] wc
    show ?thesis by simp
  qed
qed

lemma stale_scenario_value:
  "stale_scenario = Some (\<lparr> SegmentId = 0, BlockId = 0, Offset = 0 \<rparr>, \<lparr> SegmentId = 0, BlockId = 0, Offset = 9 \<rparr>,
     Inr (bytes_of ''e1''), Inl EOF,
     chunk_header (bytes_of ''e1'') kFullType @ bytes_of ''e1'' @ chunk_header (bytes_of ''e2'') kFullType @ bytes_of ''e2'')"
  unfolding stale_scenario_def
  by (simp add: seg_defs bytes_of_def)

text \<open>
  C10. Writes and flushes never touch the one-slot read cache, and \<open>readBlock\<close> serves a
  block whose id is the cached id from the cache without reading the file. In the run
  write "e1", sync, read at the first position, write "e2" (same block, offset 9), sync,
  the read at the second position returns \<open>EOF\<close>, not "e2", although the file holds both
  chunks.
\<close>

theorem cache_never_invalidated:
  "(Segment_Write s bs = Inr (s1, p) \<longrightarrow> cachedBlock s1 = cachedBlock s)
   \<and> (Segment_Sync s = Inr s2 \<longrightarrow> cachedBlock s2 = cachedBlock s)
   \<and> (\<not> closed s \<and> blk_id (cachedBlock s) = b \<longrightarrow> readBlock s b = (s, Inr (blk_data (cachedBlock s))))
   \<and> stale_scenario =
       Some (\<lparr> SegmentId = 0, BlockId = 0, Offset = 0 \<rparr>, \<lparr> SegmentId = 0, BlockId = 0, Offset = 9 \<rparr>,
         Inr (bytes_of ''e1''), Inl EOF,
         chunk_header (bytes_of ''e1'') kFullType @ bytes_of ''e1''
           @ chunk_header (bytes_of ''e2'') kFullType @ bytes_of ''e2'')"
proof (intro conjI impI)
  assume "Segment_Write s bs = Inr (s1, p)"
  then show "cachedBlock s1 = cachedBlock s"
    by (auto simp: Segment_Write_def split: if_splits sum.splits prod.splits dest: Write_loop_cached)
next
  assume "Segment_Sync s = Inr s2"
  then show "cachedBlock s2 = cachedBlock s"
    by (auto simp: Segment_Sync_def split: if_splits dest: flushBlock_cached)
next
  assume "\<not> closed s \<and> blk_id (cachedBlock s) = b"
  then show "readBlock s b = (s, Inr (blk_data (cachedBlock s)))" by (simp add: readBlock_def)
next
  show "stale_scenario =
       Some (\<lparr> SegmentId = 0, BlockId = 0, Offset = 0 \<rparr>, \<lparr> SegmentId = 0, BlockId = 0, Offset = 9 \<rparr>,
         Inr (bytes_of ''e1''), Inl EOF,
         chunk_header (bytes_of ''e1'') kFullType @ bytes_of ''e1''
           @ chunk_header (bytes_of ''e2'') kFullType @ bytes_of ''e2'')"
    by (rule stale_scenario_value)
qed

theorem cache_never_invalidated_witness:
  "Segment_Write (NewSegment 0 []) (bytes_of ''e2'') =
     Inr ((NewSegment 0 [])\<lparr> currentBlock :=
            \<lparr> blk_id = 0, blk_data = chunk_header (bytes_of ''e2'') kFullType @ bytes_of ''e2'', flushed = 0 \<rparr> \<rparr>,
          Some \<lparr> SegmentId = 0, BlockId = 0, Offset = 0 \<rparr>)
   \<and> cachedBlock ((NewSegment 0 [])\<lparr> currentBlock :=
            \<lparr> blk_id = 0, blk_data = chunk_header (bytes_of ''e2'') kFullType @ bytes_of ''e2'', flushed = 0 \<rparr> \<rparr>)
       = cachedBlock (NewSegment 0 [])
   \<and> Segment_Sync (NewSegment 0 []) = Inr (NewSegment 0 [])
   \<and> \<not> closed (NewSegment 0 []) \<and> blk_id (cachedBlock (NewSegment 0 [])) = - 1
   \<and> readBlock (NewSegment 0 []) (- 1) = (NewSegment 0 [], Inr (blk_data (cachedBlock (NewSegment 0 []))))"
  using cache_never_invalidated [of "NewSegment 0 []" "bytes_of ''e2''"
      "(NewSegment 0 [])\<lparr> currentBlock :=
            \<lparr> blk_id = 0, blk_data = chunk_header (bytes_of ''e2'') kFullType @ bytes_of ''e2'', flushed = 0 \<rparr> \<rparr>"
      "Some \<lparr> SegmentId = 0, BlockId = 0, Offset = 0 \<rparr>" "NewSegment 0 []" "- 1"]
  by (simp add: seg_defs bytes_of_def)

section \<open>Chunks stay inside their blocks\<close>

text \<open>
  The buffer of the current block never exceeds a block, and the flushed watermark never
  exceeds the buffer.
\<close>

definition seg_inv :: "Segment \<Rightarrow> bool" where
  "seg_inv s \<longleftrightarrow> length (blk_data (currentBlock s)) \<le> blockSize
     \<and> flushed (currentBlock s) \<le> length (blk_data (currentBlock s))"

lemma NewSegment_inv: "seg_inv (NewSegment ident file)"
proof -
  have "length file mod blockSize < blockSize" using blockSize_pos by simp
  moreover have "length file mod blockSize \<le> length file" by simp
  ultimately show ?thesis by (simp add: seg_inv_def NewSegment_def Let_def min_def)
qed

lemma flushBlock_padding:
  assumes "seg_inv s"
  shows "flushBlock s True =
     Inr (s\<lparr> fd := fd s @ drop (flushed (currentBlock s))
                 (blk_data (currentBlock s) @ replicate (blockSize - length (blk_data (currentBlock s))) 0),
             currentBlock := \<lparr> blk_id = blk_id (currentBlock s) + 1, blk_data = [], flushed = 0 \<rparr> \<rparr>)"
  using assms by (auto simp: flushBlock_def seg_inv_def Let_def)

lemma flushBlock_inv: "seg_inv s \<Longrightarrow> flushBlock s padding = Inr s1 \<Longrightarrow> seg_inv s1"
  by (auto simp: flushBlock_def seg_inv_def Let_def split: if_splits)

lemma flushBlock_total: "seg_inv s \<Longrightarrow> \<exists>s1. flushBlock s padding = Inr s1"
  by (auto simp: flushBlock_def seg_inv_def Let_def)


lemma flushBlock_fields:
  "flushBlock s padding = Inr s1 \<Longrightarrow> seg_id s1 = seg_id s \<and> closed s1 = closed s"
  by (auto simp: flushBlock_def Let_def split: if_splits)

text \<open>One round of the loop of \<open>Write\<close>.\<close>

lemma Write_loop_step:
  assumes "seg_inv s" and "length (chk_data c) + chunkHeaderSize \<le> blockSize"
  obtains s2 p where
    "Write_loop s (c # cs) =
       (case Write_loop s2 cs of Inl e \<Rightarrow> Inl e | Inr (s3, ps) \<Rightarrow> Inr (s3, p # ps))"
    and "seg_inv s2" and "seg_id s2 = seg_id s" and "closed s2 = closed s"
    and "SegmentId p = seg_id s" and "BlockId p = blk_id (currentBlock s2)" and "0 \<le> Offset p"
    and "length (blk_data (currentBlock s2)) = nat (Offset p) + chunkHeaderSize + length (chk_data c)"
    and "if length (blk_data (currentBlock s)) + chunkHeaderSize + length (chk_data c) > blockSize
         then BlockId p = blk_id (currentBlock s) + 1 \<and> Offset p = 0
         else BlockId p = blk_id (currentBlock s) \<and> Offset p = int (length (blk_data (currentBlock s)))"
proof (cases "length (blk_data (currentBlock s)) + chunkHeaderSize + length (chk_data c) > blockSize")
  case True
  define s1 where "s1 = s\<lparr> fd := fd s @ drop (flushed (currentBlock s))
                 (blk_data (currentBlock s) @ replicate (blockSize - length (blk_data (currentBlock s))) 0),
             currentBlock := \<lparr> blk_id = blk_id (currentBlock s) + 1, blk_data = [], flushed = 0 \<rparr> \<rparr>"
  have fl: "flushBlock s True = Inr s1" unfolding s1_def by (rule flushBlock_padding[OF assms(1)])
  define s2 where "s2 = fst (writeChunk s1 (chk_data c) (chunkType c))"
  define p where "p = snd (writeChunk s1 (chk_data c) (chunkType c))"
  have hl: "length (chunk_header (chk_data c) (chunkType c)) = chunkHeaderSize"
    by (simp add: chunk_header_def PutUint32_def PutUint16_def chunkHeaderSize_def)
  show ?thesis
  proof (rule that)
    show "Write_loop s (c # cs) =
       (case Write_loop s2 cs of Inl e \<Rightarrow> Inl e | Inr (s3, ps) \<Rightarrow> Inr (s3, p # ps))"
    proof -
      have "writeChunk s1 (chk_data c) (chunkType c) = (s2, p)" by (simp add: s2_def p_def)
      then show ?thesis using True fl by simp
    qed
    show "seg_inv s2" using assms(2) hl
      by (simp add: s2_def s1_def writeChunk_def Let_def seg_inv_def)
    show "seg_id s2 = seg_id s" by (simp add: s2_def s1_def writeChunk_def Let_def)
    show "closed s2 = closed s" by (simp add: s2_def s1_def writeChunk_def Let_def)
    show "SegmentId p = seg_id s" by (simp add: p_def s1_def writeChunk_def Let_def)
    show "BlockId p = blk_id (currentBlock s2)" by (simp add: p_def s2_def s1_def writeChunk_def Let_def)
    show "0 \<le> Offset p" by (simp add: p_def s1_def writeChunk_def Let_def)
    show "length (blk_data (currentBlock s2)) = nat (Offset p) + chunkHeaderSize + length (chk_data c)"
      using hl by (simp add: p_def s2_def s1_def writeChunk_def Let_def)
    show "if length (blk_data (currentBlock s)) + chunkHeaderSize + length (chk_data c) > blockSize
         then BlockId p = blk_id (currentBlock s) + 1 \<and> Offset p = 0
         else BlockId p = blk_id (currentBlock s) \<and> Offset p = int (length (blk_data (currentBlock s)))"
      using True by (simp add: p_def s1_def writeChunk_def Let_def)
  qed
next
  case False
  define s2 where "s2 = fst (writeChunk s (chk_data c) (chunkType c))"
  define p where "p = snd (writeChunk s (chk_data c) (chunkType c))"
  have hl: "length (chunk_header (chk_data c) (chunkType c)) = chunkHeaderSize"
    by (simp add: chunk_header_def PutUint32_def PutUint16_def chunkHeaderSize_def)
  show ?thesis
  proof (rule that)
    show "Write_loop s (c # cs) =
       (case Write_loop s2 cs of Inl e \<Rightarrow> Inl e | Inr (s3, ps) \<Rightarrow> Inr (s3, p # ps))"
    proof -
      have "writeChunk s (chk_data c) (chunkType c) = (s2, p)" by (simp add: s2_def p_def)
      then show ?thesis using False by simp
    qed
    show "seg_inv s2" using assms(1) False hl
      by (simp add: s2_def writeChunk_def Let_def seg_inv_def)
    show "seg_id s2 = seg_id s" by (simp add: s2_def writeChunk_def Let_def)
    show "closed s2 = closed s" by (simp add: s2_def writeChunk_def Let_def)
    show "SegmentId p = seg_id s" by (simp add: p_def writeChunk_def Let_def)
    show "BlockId p = blk_id (currentBlock s2)" by (simp add: p_def s2_def writeChunk_def Let_def)
    show "0 \<le> Offset p" by (simp add: p_def writeChunk_def Let_def)
    show "length (blk_data (currentBlock s2)) = nat (Offset p) + chunkHeaderSize + length (chk_data c)"
      using hl by (simp add: p_def s2_def writeChunk_def Let_def)
    show "if length (blk_data (currentBlock s)) + chunkHeaderSize + length (chk_data c) > blockSize
         then BlockId p = blk_id (currentBlock s) + 1 \<and> Offset p = 0
         else BlockId p = blk_id (currentBlock s) \<and> Offset p = int (length (blk_data (currentBlock s)))"
      using False by (simp add: p_def writeChunk_def Let_def)
  qed
qed


fun chain :: "nat \<Rightarrow> chunk list \<Rightarrow> bool" where
  "chain L [] = True"
| "chain L (c # cs) =
     (length (chk_data c) + chunkHeaderSize \<le> blockSize \<and>
      (let L1 = (if L + chunkHeaderSize + length (chk_data c) > blockSize
                 then chunkHeaderSize + length (chk_data c)
                 else L + chunkHeaderSize + length (chk_data c))
       in (cs \<noteq> [] \<longrightarrow> L1 = blockSize) \<and> chain L1 cs))"

definition chunk_in_block :: "Segment \<Rightarrow> Position \<Rightarrow> chunk \<Rightarrow> bool" where
  "chunk_in_block s p c \<longleftrightarrow> SegmentId p = seg_id s \<and> 0 \<le> Offset p
     \<and> Offset p + int (chunkHeaderSize + length (chk_data c)) \<le> int blockSize"

lemma Write_loop_chain:
  assumes "seg_inv s" and "chain (length (blk_data (currentBlock s))) cs"
  shows "\<exists>s' ps. Write_loop s cs = Inr (s', ps) \<and> seg_inv s' \<and> seg_id s' = seg_id s \<and> closed s' = closed s
     \<and> list_all2 (chunk_in_block s) ps cs
     \<and> sorted_wrt (<) (map BlockId ps)
     \<and> (\<forall>p\<in>set ps. blk_id (currentBlock s) \<le> BlockId p
           \<and> (length (blk_data (currentBlock s)) = blockSize \<longrightarrow> blk_id (currentBlock s) < BlockId p))"
  using assms
proof (induction cs arbitrary: s)
  case Nil
  then show ?case by simp
next
  case (Cons c cs)
  from Cons.prems(2) have fit: "length (chk_data c) + chunkHeaderSize \<le> blockSize" by simp
  obtain s2 p where
    eq: "Write_loop s (c # cs) =
       (case Write_loop s2 cs of Inl e \<Rightarrow> Inl e | Inr (s3, ps) \<Rightarrow> Inr (s3, p # ps))"
    and inv2: "seg_inv s2" and id2: "seg_id s2 = seg_id s" and cl2: "closed s2 = closed s"
    and sp: "SegmentId p = seg_id s" and bp: "BlockId p = blk_id (currentBlock s2)" and op: "0 \<le> Offset p"
    and len2: "length (blk_data (currentBlock s2)) = nat (Offset p) + chunkHeaderSize + length (chk_data c)"
    and where_p: "if length (blk_data (currentBlock s)) + chunkHeaderSize + length (chk_data c) > blockSize
         then BlockId p = blk_id (currentBlock s) + 1 \<and> Offset p = 0
         else BlockId p = blk_id (currentBlock s) \<and> Offset p = int (length (blk_data (currentBlock s)))"
    by (rule Write_loop_step[OF Cons.prems(1) fit, of cs])
  have L1: "length (blk_data (currentBlock s2)) =
      (if length (blk_data (currentBlock s)) + chunkHeaderSize + length (chk_data c) > blockSize
       then chunkHeaderSize + length (chk_data c)
       else length (blk_data (currentBlock s)) + chunkHeaderSize + length (chk_data c))"
    using len2 where_p by (auto split: if_splits)
  from Cons.prems(2) L1 have ch2: "chain (length (blk_data (currentBlock s2))) cs"
    and full: "cs \<noteq> [] \<longrightarrow> length (blk_data (currentBlock s2)) = blockSize"
    by (auto simp: Let_def)
  from Cons.IH[OF inv2 ch2] obtain s' ps where
    w: "Write_loop s2 cs = Inr (s', ps)" and inv': "seg_inv s'" and id': "seg_id s' = seg_id s2"
    and cl': "closed s' = closed s2" and all2: "list_all2 (chunk_in_block s2) ps cs"
    and srt: "sorted_wrt (<) (map BlockId ps)"
    and lower: "\<forall>p\<in>set ps. blk_id (currentBlock s2) \<le> BlockId p
           \<and> (length (blk_data (currentBlock s2)) = blockSize \<longrightarrow> blk_id (currentBlock s2) < BlockId p)"
    by blast
  have inb: "chunk_in_block s p c"
  proof -
    have "nat (Offset p) + chunkHeaderSize + length (chk_data c) \<le> blockSize"
      using len2 inv2 by (simp add: seg_inv_def)
    then have "Offset p + int (chunkHeaderSize + length (chk_data c)) \<le> int blockSize"
      using op by linarith
    then show ?thesis using sp op by (simp add: chunk_in_block_def)
  qed
  have all2': "list_all2 (chunk_in_block s) ps cs"
  proof -
    have "chunk_in_block s2 = chunk_in_block s"
      by (intro ext) (simp add: chunk_in_block_def id2)
    with all2 show ?thesis by simp
  qed
  have ps_ne: "ps \<noteq> [] \<Longrightarrow> cs \<noteq> []" using all2 by auto
  have above: "\<forall>q\<in>set ps. BlockId p < BlockId q"
  proof
    fix q assume q: "q \<in> set ps"
    then have "ps \<noteq> []" by auto
    then have "length (blk_data (currentBlock s2)) = blockSize" using ps_ne full by simp
    with lower q bp show "BlockId p < BlockId q" by simp
  qed
  have lowp: "blk_id (currentBlock s) \<le> BlockId p
       \<and> (length (blk_data (currentBlock s)) = blockSize \<longrightarrow> blk_id (currentBlock s) < BlockId p)"
    using where_p by (auto simp: chunkHeaderSize_def split: if_splits)
  have lowq: "\<forall>q\<in>set ps. blk_id (currentBlock s) \<le> BlockId q
       \<and> (length (blk_data (currentBlock s)) = blockSize \<longrightarrow> blk_id (currentBlock s) < BlockId q)"
    using above lowp by fastforce
  show ?case
    using eq w inv' id' id2 cl' cl2 inb all2' srt above lowp lowq by simp
qed


text \<open>The shape of the list of chunks.\<close>

definition loop_size :: "nat \<Rightarrow> nat" where
  "loop_size remaining =
     (if blockSize - chunkHeaderSize > remaining then remaining else blockSize - chunkHeaderSize)"

definition loop_chunk :: "byte list \<Rightarrow> nat \<Rightarrow> nat \<Rightarrow> chunk" where
  "loop_chunk bs offset remaining =
     \<lparr> chk_data = take (loop_size remaining) (drop offset bs),
       chunkType = (if remaining = length bs \<and> loop_size remaining = length bs then kFullType
                    else if remaining = length bs then kFirstType
                    else if remaining = loop_size remaining then kLastType
                    else kMiddleType) \<rparr>"

lemma loop_size_bounds: "0 < remaining \<Longrightarrow> 0 < loop_size remaining \<and> loop_size remaining \<le> remaining
    \<and> loop_size remaining + chunkHeaderSize \<le> blockSize"
  by (simp add: loop_size_def blockSize_def chunkHeaderSize_def)

lemma split_loop_unfold:
  "0 < remaining \<Longrightarrow> split_loop bs offset remaining chunks =
     split_loop bs (offset + loop_size remaining) (remaining - loop_size remaining)
       (chunks @ [loop_chunk bs offset remaining])"
  by (subst split_loop.simps) (simp add: Let_def loop_size_def loop_chunk_def)

lemma split_loop_done: "split_loop bs offset 0 chunks = chunks"
  by (subst split_loop.simps) simp

lemma split_loop_acc: "split_loop bs offset remaining chunks = chunks @ split_loop bs offset remaining []"
proof (induction remaining arbitrary: offset chunks rule: less_induct)
  case (less remaining)
  show ?case
  proof (cases "0 < remaining")
    case True
    then have smaller: "remaining - loop_size remaining < remaining"
      using loop_size_bounds[of remaining] by simp
    let ?c = "loop_chunk bs offset remaining"
    let ?o = "offset + loop_size remaining"
    let ?r = "remaining - loop_size remaining"
    have a: "split_loop bs offset remaining chunks = split_loop bs ?o ?r (chunks @ [?c])"
      by (rule split_loop_unfold[OF True])
    have b: "split_loop bs ?o ?r (chunks @ [?c]) = (chunks @ [?c]) @ split_loop bs ?o ?r []"
      by (rule less.IH[OF smaller])
    have c: "split_loop bs offset remaining [] = split_loop bs ?o ?r ([] @ [?c])"
      by (rule split_loop_unfold[OF True])
    have d: "split_loop bs ?o ?r ([] @ [?c]) = ([] @ [?c]) @ split_loop bs ?o ?r []"
      by (rule less.IH[OF smaller])
    have "split_loop bs offset remaining chunks = chunks @ [?c] @ split_loop bs ?o ?r []"
      unfolding a b by simp
    moreover have "split_loop bs offset remaining [] = [?c] @ split_loop bs ?o ?r []"
      unfolding c d by simp
    ultimately show ?thesis by simp
  next
    case False
    then show ?thesis by (simp add: split_loop_done)
  qed
qed

lemma split_loop_Cons:
  "0 < remaining \<Longrightarrow> split_loop bs offset remaining [] =
     loop_chunk bs offset remaining
       # split_loop bs (offset + loop_size remaining) (remaining - loop_size remaining) []"
  using split_loop_unfold[of remaining bs offset "[]"]
    split_loop_acc[of bs "offset + loop_size remaining" "remaining - loop_size remaining" "[loop_chunk bs offset remaining]"]
  by simp

lemma split_loop_empty_iff: "split_loop bs offset remaining [] = [] \<longleftrightarrow> remaining = 0"
  using split_loop_Cons[of remaining bs offset] split_loop_done[of bs offset "[]"]
  by (cases "0 < remaining") auto

lemma chain_split_loop:
  assumes "offset + remaining = length bs"
    and "0 < remaining \<longrightarrow> L + chunkHeaderSize + loop_size remaining > blockSize"
  shows "chain L (split_loop bs offset remaining [])"
  using assms
proof (induction remaining arbitrary: offset L rule: less_induct)
  case (less remaining)
  show ?case
  proof (cases "0 < remaining")
    case False
    then show ?thesis by (simp add: split_loop_done)
  next
    case True
    note b = loop_size_bounds[OF True]
    let ?k = "loop_size remaining"
    have len: "length (chk_data (loop_chunk bs offset remaining)) = ?k"
    proof -
      have "length bs - offset = remaining" using less.prems(1) by simp
      then show ?thesis using b by (simp add: loop_chunk_def)
    qed
    have smaller: "remaining - ?k < remaining" using b by simp
    have rest: "chain (chunkHeaderSize + ?k) (split_loop bs (offset + ?k) (remaining - ?k) [])"
    proof (rule less.IH[OF smaller])
      show "offset + ?k + (remaining - ?k) = length bs" using less.prems(1) b by simp
      show "0 < remaining - ?k \<longrightarrow> blockSize < chunkHeaderSize + ?k + chunkHeaderSize + loop_size (remaining - ?k)"
      proof
        assume r: "0 < remaining - ?k"
        then have "?k = blockSize - chunkHeaderSize" by (auto simp: loop_size_def split: if_splits)
        moreover have "0 < loop_size (remaining - ?k)" using loop_size_bounds[OF r] by simp
        ultimately show "blockSize < chunkHeaderSize + ?k + chunkHeaderSize + loop_size (remaining - ?k)"
          by (simp add: blockSize_def chunkHeaderSize_def)
      qed
    qed
    have full: "split_loop bs (offset + ?k) (remaining - ?k) [] \<noteq> [] \<longrightarrow> chunkHeaderSize + ?k = blockSize"
    proof
      assume "split_loop bs (offset + ?k) (remaining - ?k) [] \<noteq> []"
      then have "0 < remaining - ?k" by (simp add: split_loop_empty_iff)
      then have "?k = blockSize - chunkHeaderSize" by (auto simp: loop_size_def split: if_splits)
      then show "chunkHeaderSize + ?k = blockSize" by (simp add: blockSize_def chunkHeaderSize_def)
    qed
    show ?thesis
      using split_loop_Cons[OF True, of bs offset] len b less.prems(2) True rest full
      by (simp add: Let_def)
  qed
qed

lemma chain_splitIntoChunks:
  assumes "length (blk_data (currentBlock s)) \<le> blockSize"
  shows "chain (length (blk_data (currentBlock s))) (splitIntoChunks s bs)"
proof (cases "length (blk_data (currentBlock s)) + chunkHeaderSize < blockSize")
  case False
  then have eq: "splitIntoChunks s bs = split_loop bs 0 (length bs) []"
    by (simp add: splitIntoChunks_def Let_def)
  show ?thesis unfolding eq
  proof (rule chain_split_loop)
    show "0 + length bs = length bs" by simp
    show "0 < length bs \<longrightarrow>
       blockSize < length (blk_data (currentBlock s)) + chunkHeaderSize + loop_size (length bs)"
      using False loop_size_bounds[of "length bs"] by auto
  qed
next
  case True
  define L where "L = length (blk_data (currentBlock s))"
  define space where "space = blockSize - L - chunkHeaderSize"
  define k where "k = (if space > length bs then length bs else space)"
  define t where "t = (if k = length bs then kFullType else kFirstType)"
  have sp: "0 < space" "L + chunkHeaderSize + space = blockSize" using True by (auto simp: space_def L_def)
  have k: "k \<le> length bs" "k \<le> space" by (auto simp: k_def)
  have space_int: "int blockSize - int (length (blk_data (currentBlock s))) - int chunkHeaderSize = int space"
    using True by (simp add: space_def L_def)
  have eq: "splitIntoChunks s bs = split_loop bs k (length bs - k) [\<lparr> chk_data = take k bs, chunkType = t \<rparr>]"
    unfolding splitIntoChunks_def Let_def space_int using sp(1) by (simp add: k_def t_def)
  have eq2: "splitIntoChunks s bs = \<lparr> chk_data = take k bs, chunkType = t \<rparr> # split_loop bs k (length bs - k) []"
    unfolding eq using split_loop_acc[of bs k "length bs - k" "[\<lparr> chk_data = take k bs, chunkType = t \<rparr>]"] by simp
  have rest: "chain (L + chunkHeaderSize + k) (split_loop bs k (length bs - k) [])"
  proof (rule chain_split_loop)
    show "k + (length bs - k) = length bs" using k by simp
    show "0 < length bs - k \<longrightarrow> blockSize < L + chunkHeaderSize + k + chunkHeaderSize + loop_size (length bs - k)"
    proof
      assume r: "0 < length bs - k"
      then have "k = space" by (auto simp: k_def split: if_splits)
      then show "blockSize < L + chunkHeaderSize + k + chunkHeaderSize + loop_size (length bs - k)"
        using sp loop_size_bounds[OF r] by (simp add: chunkHeaderSize_def)
    qed
  qed
  have full: "split_loop bs k (length bs - k) [] \<noteq> [] \<longrightarrow> L + chunkHeaderSize + k = blockSize"
  proof
    assume "split_loop bs k (length bs - k) [] \<noteq> []"
    then have "0 < length bs - k" by (simp add: split_loop_empty_iff)
    then have "k = space" by (auto simp: k_def split: if_splits)
    then show "L + chunkHeaderSize + k = blockSize" using sp by simp
  qed
  have nofl: "\<not> L + chunkHeaderSize + k > blockSize" using sp k by simp
  have lk: "length (take k bs) = k" using k by simp
  show ?thesis
    unfolding eq2 L_def[symmetric] using rest full nofl lk sp k by (simp add: Let_def)
qed

lemma Read_loop_fields:
  "currentBlock (fst (Read_loop s p e)) = currentBlock s \<and> fd (fst (Read_loop s p e)) = fd s
   \<and> closed (fst (Read_loop s p e)) = closed s \<and> seg_id (fst (Read_loop s p e)) = seg_id s"
proof (induction s p e rule: Read_loop.induct)
  case (1 s currPos entry)
  obtain s1 r where rb: "readBlock s (BlockId currPos) = (s1, r)" by fastforce
  note f = readBlock_Inr_fd[OF rb]
  show ?case
  proof (cases r)
    case (Inl err)
    with rb f show ?thesis by (subst (1 2 3 4) Read_loop.simps) simp
  next
    case (Inr blockData)
    show ?thesis
      using rb Inr f "1.IH"[OF rb[symmetric] Inr]
      by (subst (1 2 3 4) Read_loop.simps) (auto simp: Let_def split: sum.splits)
  qed
qed

lemma Segment_Read_inv: "seg_inv s \<Longrightarrow> seg_inv (fst (Segment_Read s pos))"
  using Read_loop_fields[of s _ "[]"] by (simp add: Segment_Read_def seg_inv_def)

lemma Segment_Write_inv:
  assumes "seg_inv s" and "Segment_Write s bs = Inr (s1, r)"
  shows "seg_inv s1"
proof -
  from assms(1) have "length (blk_data (currentBlock s)) \<le> blockSize" by (simp add: seg_inv_def)
  from Write_loop_chain[OF assms(1) chain_splitIntoChunks[OF this, of bs]] assms(2)
  show ?thesis by (auto simp: Segment_Write_def split: if_splits)
qed

lemma Segment_Sync_inv: "seg_inv s \<Longrightarrow> Segment_Sync s = Inr s1 \<Longrightarrow> seg_inv s1"
  by (auto simp: Segment_Sync_def split: if_splits dest: flushBlock_inv)

lemma Segment_Close_inv:
  assumes "seg_inv s" and "Segment_Close s = Inr s1"
  shows "seg_inv s1"
proof (cases "closed s")
  case True
  with assms show ?thesis by (simp add: Segment_Close_def)
next
  case False
  with assms(2) obtain s2 where fl: "flushBlock s True = Inr s2" and s1: "s1 = s2\<lparr> closed := True \<rparr>"
    by (auto simp: Segment_Close_def split: sum.splits)
  from flushBlock_inv[OF assms(1) fl] show ?thesis by (simp add: s1 seg_inv_def)
qed

text \<open>
  The states a segment can reach: it is opened on some file, and then written, synced,
  read and closed in any order. A failed operation leaves the segment as it was.
\<close>

datatype seg_op = Op_Write "byte list" | Op_Sync | Op_Read Position | Op_Close

fun seg_step :: "Segment \<Rightarrow> seg_op \<Rightarrow> Segment" where
  "seg_step s (Op_Write bs) = (case Segment_Write s bs of Inl err \<Rightarrow> s | Inr (s1, pos) \<Rightarrow> s1)"
| "seg_step s Op_Sync = (case Segment_Sync s of Inl err \<Rightarrow> s | Inr s1 \<Rightarrow> s1)"
| "seg_step s (Op_Read pos) = fst (Segment_Read s pos)"
| "seg_step s Op_Close = (case Segment_Close s of Inl err \<Rightarrow> s | Inr s1 \<Rightarrow> s1)"

lemma seg_step_inv: "seg_inv s \<Longrightarrow> seg_inv (seg_step s x)"
  by (cases x)
     (auto split: sum.splits intro: Segment_Read_inv Segment_Write_inv Segment_Sync_inv Segment_Close_inv)

lemma seg_run_inv: "seg_inv s \<Longrightarrow> seg_inv (foldl seg_step s ops)"
  by (induction ops arbitrary: s) (auto intro: seg_step_inv)

text \<open>
  C5. In every state that a segment reaches from \<open>NewSegment\<close> by writes, syncs, reads and
  closes, a successful run of the loop of \<open>Write\<close> on the chunks of an entry puts every
  chunk entirely inside one block: the offset \<open>o\<close> of its header is not negative and
  \<open>o\<close> plus the 7 bytes of the header plus the payload is at most \<open>blockSize\<close>; and the
  block ids of the chunks of one entry increase strictly, so no block receives two chunks
  of the same entry.
\<close>

theorem chunks_never_straddle_blocks:
  assumes "s = foldl seg_step (NewSegment ident file) ops"
    and "Write_loop s (splitIntoChunks s bs) = Inr (s1, ps)"
  shows "list_all2 (chunk_in_block s) ps (splitIntoChunks s bs) \<and> sorted_wrt (<) (map BlockId ps)"
proof -
  have inv: "seg_inv s" unfolding assms(1) by (rule seg_run_inv[OF NewSegment_inv])
  then have "length (blk_data (currentBlock s)) \<le> blockSize" by (simp add: seg_inv_def)
  from Write_loop_chain[OF inv chain_splitIntoChunks[OF this, of bs]] assms(2)
  show ?thesis by auto
qed


theorem chunks_never_straddle_blocks_witness:
  "(case Write_loop (foldl seg_step (NewSegment 0 []) [Op_Write (bytes_of ''ab''), Op_Sync])
           (splitIntoChunks (foldl seg_step (NewSegment 0 []) [Op_Write (bytes_of ''ab''), Op_Sync])
              (bytes_of ''entry1'')) of
      Inl err \<Rightarrow> False
    | Inr (s1, ps) \<Rightarrow>
        ps = [\<lparr> SegmentId = 0, BlockId = 0, Offset = 9 \<rparr>]
        \<and> list_all2 (chunk_in_block (foldl seg_step (NewSegment 0 []) [Op_Write (bytes_of ''ab''), Op_Sync])) ps
            (splitIntoChunks (foldl seg_step (NewSegment 0 []) [Op_Write (bytes_of ''ab''), Op_Sync])
               (bytes_of ''entry1''))
        \<and> sorted_wrt (<) (map BlockId ps))"
proof -
  define S where "S = foldl seg_step (NewSegment 0 []) [Op_Write (bytes_of ''ab''), Op_Sync]"
  have "\<exists>s1. Write_loop S (splitIntoChunks S (bytes_of ''entry1''))
      = Inr (s1, [\<lparr> SegmentId = 0, BlockId = 0, Offset = 9 \<rparr>])"
    unfolding S_def by (simp add: seg_defs bytes_of_def)
  then obtain s1 where h: "Write_loop S (splitIntoChunks S (bytes_of ''entry1''))
      = Inr (s1, [\<lparr> SegmentId = 0, BlockId = 0, Offset = 9 \<rparr>])" by blast
  from chunks_never_straddle_blocks [OF S_def h] h show ?thesis
    unfolding S_def by simp
qed

section \<open>Positions returned by writes increase\<close>

definition pos_less :: "Position \<Rightarrow> Position \<Rightarrow> bool" where
  "pos_less p q \<longleftrightarrow> SegmentId p < SegmentId q
     \<or> (SegmentId p = SegmentId q \<and> (BlockId p < BlockId q \<or> (BlockId p = BlockId q \<and> Offset p < Offset q)))"

definition pos_le :: "Position \<Rightarrow> Position \<Rightarrow> bool" where
  "pos_le p q \<longleftrightarrow> pos_less p q
     \<or> (SegmentId p = SegmentId q \<and> BlockId p = BlockId q \<and> Offset p = Offset q)"

text \<open>The position that the next chunk written to a segment will get.\<close>

definition frontier :: "Segment \<Rightarrow> Position" where
  "frontier s = \<lparr> SegmentId = seg_id s, BlockId = blk_id (currentBlock s),
                  Offset = int (length (blk_data (currentBlock s))) \<rparr>"

lemma pos_le_refl: "pos_le p p"
  by (simp add: pos_le_def)

lemma pos_le_trans: "pos_le p q \<Longrightarrow> pos_le q r \<Longrightarrow> pos_le p r"
  by (auto simp: pos_le_def pos_less_def)

lemma pos_less_le_trans: "pos_less p q \<Longrightarrow> pos_le q r \<Longrightarrow> pos_less p r"
  by (auto simp: pos_le_def pos_less_def)

lemma pos_le_less_trans: "pos_le p q \<Longrightarrow> pos_less q r \<Longrightarrow> pos_less p r"
  by (auto simp: pos_le_def pos_less_def)

lemma Write_loop_frontier:
  assumes "seg_inv s" and "chain (length (blk_data (currentBlock s))) cs"
    and "Write_loop s cs = Inr (s', ps)"
  shows "pos_le (frontier s) (frontier s')
     \<and> (\<forall>p\<in>set ps. pos_le (frontier s) p \<and> pos_less p (frontier s'))"
  using assms
proof (induction cs arbitrary: s ps)
  case Nil
  then show ?case by (simp add: pos_le_refl)
next
  case (Cons c cs)
  from Cons.prems(2) have fit: "length (chk_data c) + chunkHeaderSize \<le> blockSize" by simp
  obtain s2 p where
    eq: "Write_loop s (c # cs) =
       (case Write_loop s2 cs of Inl e \<Rightarrow> Inl e | Inr (s3, ps) \<Rightarrow> Inr (s3, p # ps))"
    and inv2: "seg_inv s2" and id2: "seg_id s2 = seg_id s"
    and sp: "SegmentId p = seg_id s" and bp: "BlockId p = blk_id (currentBlock s2)" and op: "0 \<le> Offset p"
    and len2: "length (blk_data (currentBlock s2)) = nat (Offset p) + chunkHeaderSize + length (chk_data c)"
    and where_p: "if length (blk_data (currentBlock s)) + chunkHeaderSize + length (chk_data c) > blockSize
         then BlockId p = blk_id (currentBlock s) + 1 \<and> Offset p = 0
         else BlockId p = blk_id (currentBlock s) \<and> Offset p = int (length (blk_data (currentBlock s)))"
    by (rule Write_loop_step[OF Cons.prems(1) fit, of cs])
  have L1: "length (blk_data (currentBlock s2)) =
      (if length (blk_data (currentBlock s)) + chunkHeaderSize + length (chk_data c) > blockSize
       then chunkHeaderSize + length (chk_data c)
       else length (blk_data (currentBlock s)) + chunkHeaderSize + length (chk_data c))"
    using len2 where_p by (auto split: if_splits)
  from Cons.prems(2) L1 have ch2: "chain (length (blk_data (currentBlock s2))) cs"
    by (auto simp: Let_def)
  from Cons.prems(3) eq obtain ps' where w: "Write_loop s2 cs = Inr (s', ps')" and ps: "ps = p # ps'"
    by (auto split: sum.splits)
  from Cons.IH[OF inv2 ch2 w] have
    f2: "pos_le (frontier s2) (frontier s')"
    and rest: "\<forall>q\<in>set ps'. pos_le (frontier s2) q \<and> pos_less q (frontier s')" by auto
  have a: "pos_le (frontier s) p"
    using where_p sp by (auto simp: pos_le_def pos_less_def frontier_def split: if_splits)
  have b: "pos_less p (frontier s2)"
    using sp bp id2 len2 op by (simp add: pos_less_def frontier_def chunkHeaderSize_def)
  have c: "pos_le (frontier s) (frontier s2)"
    using pos_le_less_trans[OF a b] by (simp add: pos_le_def)
  show ?case unfolding ps
    using a b c f2 rest
    by (auto intro: pos_le_trans pos_less_le_trans)
qed

lemma Segment_Write_frontier:
  assumes "seg_inv s" and "Segment_Write s bs = Inr (s1, r)"
  shows "seg_inv s1 \<and> seg_id s1 = seg_id s \<and> pos_le (frontier s) (frontier s1)
     \<and> (\<forall>p. r = Some p \<longrightarrow> pos_le (frontier s) p \<and> pos_less p (frontier s1))"
proof -
  from assms(1) have len: "length (blk_data (currentBlock s)) \<le> blockSize" by (simp add: seg_inv_def)
  note ch = chain_splitIntoChunks[OF len, of bs]
  from assms(2) obtain ps where w: "Write_loop s (splitIntoChunks s bs) = Inr (s1, ps)"
    and r: "r = (case ps of [] \<Rightarrow> None | p # _ \<Rightarrow> Some p)"
    by (auto simp: Segment_Write_def split: if_splits sum.splits)
  from Write_loop_chain[OF assms(1) ch] w have "seg_inv s1" "seg_id s1 = seg_id s" by auto
  moreover from Write_loop_frontier[OF assms(1) ch w] have
    "pos_le (frontier s) (frontier s1)"
    "\<forall>p\<in>set ps. pos_le (frontier s) p \<and> pos_less p (frontier s1)" by auto
  ultimately show ?thesis using r by (cases ps) auto
qed

lemma flushBlock_frontier:
  assumes "seg_inv s" and "flushBlock s padding = Inr s1"
  shows "seg_id s1 = seg_id s \<and> pos_le (frontier s) (frontier s1)"
  using assms
  by (auto simp: flushBlock_def Let_def seg_inv_def pos_le_def pos_less_def frontier_def split: if_splits)

definition wal_inv :: "WAL \<Rightarrow> bool" where
  "wal_inv w \<longleftrightarrow> (\<forall>k a. fmlookup (segments w) k = Some a \<longrightarrow> seg_inv a \<and> seg_id a = k)
     \<and> (\<exists>a. fmlookup (segments w) (segment w) = Some a)"

definition wal_frontier :: "WAL \<Rightarrow> Position" where
  "wal_frontier w =
     (case fmlookup (segments w) (segment w) of
        None \<Rightarrow> \<lparr> SegmentId = segment w, BlockId = 0, Offset = 0 \<rparr>
      | Some a \<Rightarrow> frontier a)"

lemma open_fold:
  assumes "\<forall>k a. fmlookup m k = Some a \<longrightarrow> seg_inv a \<and> seg_id a = k"
  shows "(\<forall>k a. fmlookup (foldl (\<lambda>m segId. fmupd segId (NewSegment segId (f segId)) m) m ids) k = Some a
            \<longrightarrow> seg_inv a \<and> seg_id a = k)
     \<and> (\<forall>k\<in>set ids. \<exists>a. fmlookup (foldl (\<lambda>m segId. fmupd segId (NewSegment segId (f segId)) m) m ids) k = Some a)
     \<and> (\<forall>k a. fmlookup m k = Some a \<longrightarrow>
            (\<exists>a'. fmlookup (foldl (\<lambda>m segId. fmupd segId (NewSegment segId (f segId)) m) m ids) k = Some a'))"
  using assms
proof (induction ids arbitrary: m)
  case Nil
  then show ?case by simp
next
  case (Cons i ids)
  let ?m = "fmupd i (NewSegment i (f i)) m"
  have q: "\<forall>k a. fmlookup ?m k = Some a \<longrightarrow> seg_inv a \<and> seg_id a = k"
    using Cons.prems NewSegment_inv[of i "f i"] by (auto simp: NewSegment_def Let_def)
  from Cons.IH[OF q] show ?case by auto
qed

lemma Open_inv: "wal_inv (Open segment_size dir)"
proof (cases "sort (map fst dir) = []")
  case True
  then show ?thesis
    using NewSegment_inv[of 0 "[]"] by (auto simp: Open_def wal_inv_def Let_def NewSegment_def)
next
  case False
  let ?ids = "sort (map fst dir)"
  let ?f = "\<lambda>segId. case map_of dir segId of None \<Rightarrow> [] | Some file \<Rightarrow> file"
  have lastin: "last ?ids \<in> set ?ids" using False by (rule last_in_set)
  have "\<forall>k a. fmlookup (fmempty :: (int, Segment) fmap) k = Some a \<longrightarrow> seg_inv a \<and> seg_id a = k" by simp
  from open_fold[OF this, of ?f ?ids] lastin False
  show ?thesis by (auto simp: Open_def wal_inv_def Let_def)
qed

lemma wal_write_active:
  assumes "wal_inv w" and "fmlookup (segments w) (segment w) = Some a"
    and "Segment_Write a bs = Inr (a2, r)"
  shows "wal_inv (w\<lparr> segments := fmupd (segment w) a2 (segments w) \<rparr>)
     \<and> pos_le (wal_frontier w) (wal_frontier (w\<lparr> segments := fmupd (segment w) a2 (segments w) \<rparr>))
     \<and> (\<forall>p. r = Some p \<longrightarrow> pos_le (wal_frontier w) p
            \<and> pos_less p (wal_frontier (w\<lparr> segments := fmupd (segment w) a2 (segments w) \<rparr>)))"
proof -
  from assms(1,2) have inv: "seg_inv a" and ida: "seg_id a = segment w" by (auto simp: wal_inv_def)
  from Segment_Write_frontier[OF inv assms(3)] ida assms(1,2)
  show ?thesis by (auto simp: wal_inv_def wal_frontier_def)
qed

lemma WAL_rotate_step:
  assumes "wal_inv w" and "WAL_rotate w = Inr w1"
  shows "wal_inv w1 \<and> pos_less (wal_frontier w) (wal_frontier w1)"
proof -
  from assms(1) obtain a where a: "fmlookup (segments w) (segment w) = Some a" by (auto simp: wal_inv_def)
  with assms(1) have inv: "seg_inv a" and ida: "seg_id a = segment w" by (auto simp: wal_inv_def)
  from assms(2) a obtain a1 where sy: "Segment_Sync a = Inr a1"
    by (auto simp: WAL_rotate_def split: sum.splits)
  then have fl: "flushBlock a False = Inr a1" by (auto simp: Segment_Sync_def split: if_splits)
  from flushBlock_inv[OF inv fl] flushBlock_frontier[OF inv fl] ida
  have inv1: "seg_inv a1" and id1: "seg_id a1 = segment w" by auto
  define segs1 where "segs1 = fmupd (segment w) a1 (segments w)"
  define cont where "cont = (case fmlookup segs1 (segment w + 1) of None \<Rightarrow> [] | Some old \<Rightarrow> fd old)"
  have w1: "w1 = w\<lparr> segments := fmupd (segment w + 1) (NewSegment (segment w + 1) cont) segs1,
                    segment := segment w + 1 \<rparr>"
    using assms(2) a sy id1 by (simp add: WAL_rotate_def Let_def Segment_Id_def segs1_def cont_def)
  have idn: "seg_id (NewSegment (segment w + 1) cont) = segment w + 1" by (simp add: NewSegment_def Let_def)
  have "wal_inv w1"
    unfolding w1 using assms(1) inv1 id1 idn NewSegment_inv[of "segment w + 1" cont]
    by (auto simp: wal_inv_def segs1_def)
  moreover have "pos_less (wal_frontier w) (wal_frontier w1)"
    unfolding w1 using a ida idn by (simp add: wal_frontier_def pos_less_def frontier_def)
  ultimately show ?thesis by simp
qed

lemma WAL_Write_step:
  assumes "wal_inv w" and "WAL_Write w bs = Inr (w2, r)"
  shows "wal_inv w2 \<and> pos_le (wal_frontier w) (wal_frontier w2)
     \<and> (\<forall>p. r = Some p \<longrightarrow> pos_le (wal_frontier w) p \<and> pos_less p (wal_frontier w2))"
proof -
  from assms(1) obtain a where a: "fmlookup (segments w) (segment w) = Some a" by (auto simp: wal_inv_def)
  from assms(2) a obtain w1 a1 a2 where
    w1: "w1 = w \<or> WAL_rotate w = Inr w1"
    and a1: "fmlookup (segments w1) (segment w1) = Some a1"
    and wr: "Segment_Write a1 bs = Inr (a2, r)"
    and w2: "w2 = w1\<lparr> segments := fmupd (segment w1) a2 (segments w1) \<rparr>"
    by (auto simp: WAL_Write_def split: if_splits sum.splits option.splits)
  from w1 have inv1: "wal_inv w1" and le1: "pos_le (wal_frontier w) (wal_frontier w1)"
    using assms(1) WAL_rotate_step[OF assms(1)] by (auto simp: pos_le_def)
  from wal_write_active[OF inv1 a1 wr] le1 show ?thesis unfolding w2
    by (auto intro: pos_le_trans)
qed

lemma WAL_Sync_step:
  assumes "wal_inv w" and "WAL_Sync w = Inr w1"
  shows "wal_inv w1 \<and> pos_le (wal_frontier w) (wal_frontier w1)"
proof -
  from assms(1) obtain a where a: "fmlookup (segments w) (segment w) = Some a" by (auto simp: wal_inv_def)
  with assms(1) have inv: "seg_inv a" and ida: "seg_id a = segment w" by (auto simp: wal_inv_def)
  from assms(2) a obtain a1 where fl: "flushBlock a False = Inr a1"
    and w1: "w1 = w\<lparr> segments := fmupd (segment w) a1 (segments w) \<rparr>"
    by (auto simp: WAL_Sync_def Segment_Sync_def split: sum.splits if_splits)
  from flushBlock_inv[OF inv fl] flushBlock_frontier[OF inv fl] ida a assms(1)
  show ?thesis unfolding w1 by (auto simp: wal_inv_def wal_frontier_def)
qed

lemma WAL_Read_step:
  assumes "wal_inv w"
  shows "wal_inv (fst (WAL_Read w pos)) \<and> pos_le (wal_frontier w) (wal_frontier (fst (WAL_Read w pos)))"
proof (cases "fmlookup (segments w) (SegmentId pos)")
  case None
  then show ?thesis using assms by (simp add: WAL_Read_def pos_le_refl)
next
  case (Some a)
  with assms have inv: "seg_inv a" and ida: "seg_id a = SegmentId pos" by (auto simp: wal_inv_def)
  define a1 where "a1 = fst (Segment_Read a pos)"
  have w1: "fst (WAL_Read w pos) = w\<lparr> segments := fmupd (SegmentId pos) a1 (segments w) \<rparr>"
    using Some by (simp add: WAL_Read_def a1_def split: prod.splits)
  have f: "currentBlock a1 = currentBlock a" "seg_id a1 = seg_id a"
    using Read_loop_fields[of a _ "[]"] by (simp_all add: a1_def Segment_Read_def)
  have inv1: "seg_inv a1" unfolding a1_def by (rule Segment_Read_inv[OF inv])
  have "wal_inv (w\<lparr> segments := fmupd (SegmentId pos) a1 (segments w) \<rparr>)"
    using assms inv1 f ida by (auto simp: wal_inv_def)
  moreover have "wal_frontier (w\<lparr> segments := fmupd (SegmentId pos) a1 (segments w) \<rparr>) = wal_frontier w"
    using Some f by (auto simp: wal_frontier_def frontier_def split: option.splits)
  ultimately show ?thesis unfolding w1 by (simp add: pos_le_refl)
qed

text \<open>
  A run of the log: writes, syncs and reads in any order (the periodic sync is a sync at
  an arbitrary moment). \<open>wal_run\<close> collects the positions returned by the successful
  writes, in the order of the calls; a write that fails, or that returns no position,
  contributes none.
\<close>

datatype wal_op = W_Write "byte list" | W_Sync | W_Read Position

fun wal_step :: "WAL \<Rightarrow> wal_op \<Rightarrow> WAL \<times> Position option" where
  "wal_step w (W_Write bs) = (case WAL_Write w bs of Inl err \<Rightarrow> (w, None) | Inr (w1, pos) \<Rightarrow> (w1, pos))"
| "wal_step w W_Sync = (case WAL_Sync w of Inl err \<Rightarrow> (w, None) | Inr w1 \<Rightarrow> (w1, None))"
| "wal_step w (W_Read pos) = (fst (WAL_Read w pos), None)"

fun wal_run :: "WAL \<Rightarrow> wal_op list \<Rightarrow> Position list" where
  "wal_run w [] = []"
| "wal_run w (x # xs) =
     (case wal_step w x of
        (w1, None) \<Rightarrow> wal_run w1 xs
      | (w1, Some pos) \<Rightarrow> pos # wal_run w1 xs)"

lemma wal_step_ok:
  assumes "wal_inv w" and "wal_step w x = (w1, r)"
  shows "wal_inv w1 \<and> pos_le (wal_frontier w) (wal_frontier w1)
     \<and> (\<forall>p. r = Some p \<longrightarrow> pos_le (wal_frontier w) p \<and> pos_less p (wal_frontier w1))"
proof (cases x)
  case (W_Write bs)
  show ?thesis
  proof (cases "WAL_Write w bs")
    case (Inl err)
    with assms W_Write show ?thesis by (auto simp: pos_le_refl)
  next
    case (Inr res)
    obtain w2 r2 where res: "res = (w2, r2)" by (cases res)
    from WAL_Write_step[OF assms(1) Inr[unfolded res]] assms(2) W_Write Inr res
    show ?thesis by auto
  qed
next
  case W_Sync
  show ?thesis
  proof (cases "WAL_Sync w")
    case (Inl err)
    with assms W_Sync show ?thesis by (auto simp: pos_le_refl)
  next
    case (Inr w2)
    from WAL_Sync_step[OF assms(1) Inr] assms(2) W_Sync Inr show ?thesis by auto
  qed
next
  case (W_Read pos)
  from WAL_Read_step[OF assms(1), of pos] assms(2) W_Read show ?thesis by auto
qed

lemma wal_run_sorted:
  assumes "wal_inv w"
  shows "sorted_wrt pos_less (wal_run w ops) \<and> (\<forall>p\<in>set (wal_run w ops). pos_le (wal_frontier w) p)"
  using assms
proof (induction ops arbitrary: w)
  case Nil
  then show ?case by simp
next
  case (Cons x xs)
  obtain w1 r where st: "wal_step w x = (w1, r)" by fastforce
  from wal_step_ok[OF Cons.prems st] have inv1: "wal_inv w1"
    and le: "pos_le (wal_frontier w) (wal_frontier w1)"
    and pr: "\<forall>p. r = Some p \<longrightarrow> pos_le (wal_frontier w) p \<and> pos_less p (wal_frontier w1)" by auto
  from Cons.IH[OF inv1] have srt: "sorted_wrt pos_less (wal_run w1 xs)"
    and low: "\<forall>p\<in>set (wal_run w1 xs). pos_le (wal_frontier w1) p" by auto
  show ?case
  proof (cases r)
    case None
    with st srt low le show ?thesis by (auto intro: pos_le_trans)
  next
    case (Some p)
    with pr have a: "pos_le (wal_frontier w) p" and b: "pos_less p (wal_frontier w1)" by auto
    have "\<forall>q\<in>set (wal_run w1 xs). pos_less p q" using b low by (auto intro: pos_less_le_trans)
    with Some st srt low le a show ?thesis by (auto intro: pos_le_trans)
  qed
qed

text \<open>
  C9. For every log, opened with any segment size on any directory, and every sequence of
  writes, syncs and reads, the positions returned by the successful writes are strictly
  increasing in the lexicographic order on (segment id, block id, offset): each is
  strictly greater than every position returned before it.
\<close>

theorem write_positions_strictly_increasing:
  "sorted_wrt pos_less (wal_run (Open segment_size dir) ops)"
  using wal_run_sorted[OF Open_inv] by simp


theorem write_positions_strictly_increasing_witness:
  "wal_run (Open 8 []) [W_Write (bytes_of ''a''), W_Sync, W_Write (bytes_of ''b''), W_Write (bytes_of ''c'')]
     = [\<lparr> SegmentId = 0, BlockId = 0, Offset = 0 \<rparr>, \<lparr> SegmentId = 1, BlockId = 0, Offset = 0 \<rparr>,
        \<lparr> SegmentId = 1, BlockId = 0, Offset = 8 \<rparr>]
   \<and> sorted_wrt pos_less
        (wal_run (Open 8 []) [W_Write (bytes_of ''a''), W_Sync, W_Write (bytes_of ''b''), W_Write (bytes_of ''c'')])"
  using write_positions_strictly_increasing [of 8 "[]"
     "[W_Write (bytes_of ''a''), W_Sync, W_Write (bytes_of ''b''), W_Write (bytes_of ''c'')]"]
  by (simp add: seg_defs wal_defs bytes_of_def)

end
